theory Spec2Isabelle
  imports Complex_Main "HOL-Library.List_Lexorder" "HOL-Library.Char_ord" "HOL-Library.Option_ord"
begin

section \<open>Data model of \<open>AP_01/ID3.py\<close>\<close>

text \<open>
  A tuple of the data set is a Python \<open>dict\<close> from attribute names to values, both
  strings.  Reading an absent key raises \<open>KeyError\<close>.  In \<open>entropy\<close>, \<open>information_gain\<close>
  and the tree builder Python floats are modelled by the reals and \<open>math.log2\<close> by
  \<open>log 2\<close>; \<open>entropy_dbl\<close> and \<open>information_gain_dbl\<close> are the same two functions
  with every operation rounded to double precision.  A \<open>Dataset\<close>
  is the object once \<open>__init__\<close> has loaded it, with \<open>tree\<close> and \<open>ruleset\<close> still
  \<open>None\<close>; reading the file and printing are not modelled.
\<close>

type_synonym tuple = "string \<rightharpoonup> string"

datatype error = KeyError | ValueError | ZeroDivisionError | TypeError | IndexError | EmptyDatasetError

text \<open>
  \<open>EmptyDatasetError\<close> is the exception the specification names for an empty table;
  \<open>ID3.py\<close> defines no such class and nothing below produces it.
\<close>

text \<open>
  A \<open>Node\<close> has a free-form \<open>value\<close> (an attribute name, an attribute value, or for a
  label the dict \<open>{'attr': a, 'val': v}\<close>), a \<open>type\<close> that is one of the strings
  \<open>'attr'\<close>, \<open>'val'\<close>, \<open>'label'\<close>, and a list of children.
\<close>

datatype nvalue = Str string | Dict string string

datatype ntype = attr_t | val_t | label_t

datatype node = Node (nd_value: nvalue) (nd_type: ntype) (children: "node list")

definition is_leaf :: "node \<Rightarrow> bool" where
  "is_leaf n = (nd_type n = label_t)"

text \<open>A rule as \<open>derive_ruleset\<close> stores it, without the printed name: the
  attribute-value pairs and the concluding \<open>{attr: val}\<close>.\<close>

type_synonym rule = "(nvalue \<times> nvalue) list \<times> (string \<times> string)"

record Dataset =
  data :: "tuple list"
  headers :: "string list"
  target :: string
  tree :: "node option"
  ruleset :: "rule list option"

section \<open>Python built-ins used by the code\<close>

text \<open>\<open>[tup[r] for tup in dataset]\<close>\<close>

fun column :: "string \<Rightarrow> tuple list \<Rightarrow> error + string list" where
  "column r [] = Inr []"
| "column r (tup # ds) =
     (case tup r of
        None \<Rightarrow> Inl KeyError
      | Some v \<Rightarrow> (case column r ds of Inl e \<Rightarrow> Inl e | Inr vs \<Rightarrow> Inr (v # vs)))"

text \<open>The keys of \<open>{val: ... for val in values}\<close>: the distinct values in the order of
  their first occurrence.\<close>

definition dict_keys :: "'a list \<Rightarrow> 'a list" where
  "dict_keys values = rev (remdups (rev values))"

text \<open>
  Iterating over \<open>set(values)\<close>.  Python does not fix the order (it follows the
  hashes of the strings); the model takes ascending order.  Only the label chosen among
  equally frequent target values depends on this choice.
\<close>

definition set_iter :: "string list \<Rightarrow> string list" where
  "set_iter values = sort (remdups values)"

text \<open>\<open>max(xs, key=key)\<close>: the first element whose key is maximal; \<open>ValueError\<close> on an
  empty sequence.\<close>

fun max_key :: "('a \<Rightarrow> 'k::linorder) \<Rightarrow> 'a list \<Rightarrow> error + 'a" where
  "max_key key [] = Inl ValueError"
| "max_key key (x # xs) = Inr (foldl (\<lambda>best y. if key best < key y then y else best) x xs)"

section \<open>Entropy and information gain\<close>

text \<open>The loop of the branch \<open>if not s\<close> of \<open>entropy\<close>, over \<open>count.keys()\<close>.\<close>

definition entropy_sum :: "string list \<Rightarrow> real" where
  "entropy_sum values =
     foldl (\<lambda>entropy val.
              let p = real (count_list values val) / real (length values)
              in entropy - p * log 2 p)
           0 (dict_keys values)"

text \<open>
  \<open>entropy(r, s, dataset)\<close>.  \<open>not dataset\<close> holds for \<open>None\<close> and for the empty list,
  \<open>not s\<close> for \<open>None\<close> and for the empty string.  The recursive call
  \<open>self.entropy(r, dataset=subset)\<close> has \<open>s = None\<close>.
\<close>

function entropy :: "Dataset \<Rightarrow> string \<Rightarrow> string option \<Rightarrow> tuple list option \<Rightarrow> error + real"
  and entropy_loop ::
    "Dataset \<Rightarrow> string \<Rightarrow> string \<Rightarrow> tuple list \<Rightarrow> string list \<Rightarrow> real \<Rightarrow> string list \<Rightarrow> error + real"
where
  "entropy self r None dataset =
     (let dataset = (case dataset of None \<Rightarrow> data self
                     | Some ds \<Rightarrow> if ds = [] then data self else ds)
      in case column r dataset of
           Inl e \<Rightarrow> Inl e
         | Inr values \<Rightarrow> Inr (entropy_sum values))"
| "entropy self r (Some s) dataset =
     (if s = [] then entropy self r None dataset
      else
        let dataset = (case dataset of None \<Rightarrow> data self
                       | Some ds \<Rightarrow> if ds = [] then data self else ds)
        in case column s dataset of
             Inl e \<Rightarrow> Inl e
           | Inr s_values \<Rightarrow> entropy_loop self r s dataset s_values 0 (dict_keys s_values))"
| "entropy_loop self r s dataset s_values entropy_acc [] = Inr entropy_acc"
| "entropy_loop self r s dataset s_values entropy_acc (val # vals) =
     (let p = real (count_list s_values val) / real (length s_values);
          subset = filter (\<lambda>tup. tup s = Some val) dataset
      in case entropy self r None (Some subset) of
           Inl e \<Rightarrow> Inl e
         | Inr h \<Rightarrow> entropy_loop self r s dataset s_values (entropy_acc + p * h) vals)"
  by pat_completeness auto
termination
  by (relation "measures
        [case_sum (\<lambda>(self, r, s, dataset). case s of None \<Rightarrow> 0 | Some _ \<Rightarrow> 2) (\<lambda>_. 1),
         case_sum (\<lambda>_. 0) (\<lambda>(self, r, s, dataset, s_values, entropy_acc, vals). length vals)]")
     auto

definition information_gain :: "Dataset \<Rightarrow> string \<Rightarrow> string \<Rightarrow> error + real" where
  "information_gain self r s =
     (case entropy self r None None of
        Inl e \<Rightarrow> Inl e
      | Inr h \<Rightarrow> (case entropy self r (Some s) None of
                    Inl e \<Rightarrow> Inl e
                  | Inr hs \<Rightarrow> Inr (h - hs)))"


section \<open>Entropy and information gain in double precision\<close>

text \<open>
  A Python float is an IEEE 754 double: a number \<open>m * 2^e\<close> with an integer \<open>m\<close> of at
  most 53 bits.  Every operation on floats returns the double nearest to the exact result,
  and of two equally near the one with the even \<open>m\<close>.  \<open>round_even\<close> is the nearest
  integer with ties to even, \<open>ulp x\<close> the distance of the doubles around \<open>x\<close> (the
  power of two that brings \<open>\<bar>x\<bar>\<close> into \<open>[2^52, 2^53)\<close>), and \<open>fl x\<close> the double
  nearest to \<open>x\<close>.  The range of the exponent is not modelled: there is no overflow and no
  subnormal number.
\<close>

definition round_even :: "real \<Rightarrow> int" where
  "round_even x =
     (let n = \<lfloor>x\<rfloor>; d = x - of_int n
      in if d < 1 / 2 then n else if 1 / 2 < d then n + 1 else if even n then n else n + 1)"

definition ulp :: "real \<Rightarrow> real" where
  "ulp x = 2 powr of_int (\<lfloor>log 2 \<bar>x\<bar>\<rfloor> - 52)"

definition fl :: "real \<Rightarrow> real" where
  "fl x = (if x = 0 then 0 else of_int (round_even (x / ulp x)) * ulp x)"

text \<open>
  \<open>entropy\<close> and \<open>information_gain\<close> again, with the operations of the code on floats:
  \<open>count[val] / len(values)\<close> divides two integers and returns the nearest double, and
  \<open>*\<close>, \<open>-=\<close>, \<open>+=\<close> and \<open>-\<close> round their result.  \<open>math.log2\<close> is the function
  of the C library, which is accurate to the last place but not bound to round to the
  nearest double; the model takes the nearest double, which is what it returns at the
  arguments of the examples below (\<open>1.0\<close>, \<open>0.5\<close> and the double nearest to \<open>1/11\<close>).
  The initial \<open>entropy = 0\<close> is the integer \<open>0\<close>, which the first \<open>-=\<close> or \<open>+=\<close>
  converts to \<open>0.0\<close>.
\<close>

definition entropy_sum_dbl :: "string list \<Rightarrow> real" where
  "entropy_sum_dbl values =
     foldl (\<lambda>entropy val.
              let p = fl (real (count_list values val) / real (length values))
              in fl (entropy - fl (p * fl (log 2 p))))
           0 (dict_keys values)"

function entropy_dbl :: "Dataset \<Rightarrow> string \<Rightarrow> string option \<Rightarrow> tuple list option \<Rightarrow> error + real"
  and entropy_loop_dbl ::
    "Dataset \<Rightarrow> string \<Rightarrow> string \<Rightarrow> tuple list \<Rightarrow> string list \<Rightarrow> real \<Rightarrow> string list \<Rightarrow> error + real"
where
  "entropy_dbl self r None dataset =
     (let dataset = (case dataset of None \<Rightarrow> data self
                     | Some ds \<Rightarrow> if ds = [] then data self else ds)
      in case column r dataset of
           Inl e \<Rightarrow> Inl e
         | Inr values \<Rightarrow> Inr (entropy_sum_dbl values))"
| "entropy_dbl self r (Some s) dataset =
     (if s = [] then entropy_dbl self r None dataset
      else
        let dataset = (case dataset of None \<Rightarrow> data self
                       | Some ds \<Rightarrow> if ds = [] then data self else ds)
        in case column s dataset of
             Inl e \<Rightarrow> Inl e
           | Inr s_values \<Rightarrow> entropy_loop_dbl self r s dataset s_values 0 (dict_keys s_values))"
| "entropy_loop_dbl self r s dataset s_values entropy_acc [] = Inr entropy_acc"
| "entropy_loop_dbl self r s dataset s_values entropy_acc (val # vals) =
     (let p = fl (real (count_list s_values val) / real (length s_values));
          subset = filter (\<lambda>tup. tup s = Some val) dataset
      in case entropy_dbl self r None (Some subset) of
           Inl e \<Rightarrow> Inl e
         | Inr h \<Rightarrow> entropy_loop_dbl self r s dataset s_values (fl (entropy_acc + fl (p * h))) vals)"
  by pat_completeness auto
termination
  by (relation "measures
        [case_sum (\<lambda>(self, r, s, dataset). case s of None \<Rightarrow> 0 | Some _ \<Rightarrow> 2) (\<lambda>_. 1),
         case_sum (\<lambda>_. 0) (\<lambda>(self, r, s, dataset, s_values, entropy_acc, vals). length vals)]")
     auto



section \<open>The tree builder\<close>

text \<open>\<open>{a: self.information_gain(target, a) for a in attrs}\<close>, filled in the order of
  \<open>attrs\<close>.\<close>

fun info_gain_dict :: "Dataset \<Rightarrow> string \<Rightarrow> string list \<Rightarrow> (string \<rightharpoonup> real) \<Rightarrow> error + (string \<rightharpoonup> real)" where
  "info_gain_dict self tgt [] m = Inr m"
| "info_gain_dict self tgt (a # as) m =
     (case information_gain self tgt a of
        Inl e \<Rightarrow> Inl e
      | Inr g \<Rightarrow> info_gain_dict self tgt as (m(a \<mapsto> g)))"

text \<open>\<open>if attrs and attr in attrs: attrs.remove(attr)\<close>, on the list object \<open>attrs\<close>.\<close>

definition remove_attr :: "string \<Rightarrow> string list \<Rightarrow> string list" where
  "remove_attr attr attrs = (if attrs \<noteq> [] \<and> attr \<in> set attrs then remove1 attr attrs else attrs)"

text \<open>
  \<open>_id3(target, attrs, dataset)\<close>, with the parameter \<open>target\<close> written \<open>tgt\<close>
  (\<open>target\<close> is the field of the data set).  The list \<open>attrs\<close> is one Python object, shared by
  the caller, the loop over \<open>a_values\<close> and every recursive call, and \<open>remove\<close> changes
  it in place: the model passes the list in and returns it with the tree.
  \<open>id3_loop\<close> is the loop \<open>for val in a_values\<close>; it returns the children added to
  \<open>root\<close>.  The key \<open>info_gain[x]\<close> of an attribute of \<open>attrs\<close> is always present;
  keys are compared as \<open>Some g\<close>.
\<close>

function id3 :: "Dataset \<Rightarrow> string \<Rightarrow> string list \<Rightarrow> tuple list \<Rightarrow> error + (node \<times> string list)"
  and id3_loop ::
    "Dataset \<Rightarrow> string \<Rightarrow> string \<Rightarrow> tuple list \<Rightarrow> string list \<Rightarrow> string list
       \<Rightarrow> error + (node list \<times> string list)"
where
  "id3 self tgt attrs dataset =
     (case column tgt dataset of
        Inl e \<Rightarrow> Inl e
      | Inr t_values \<Rightarrow>
          if length (remdups t_values) = 1 then
            Inr (Node (Dict tgt (hd (remdups t_values))) label_t [], attrs)
          else if attrs = [] then
            (case max_key (count_list t_values) (set_iter t_values) of
               Inl e \<Rightarrow> Inl e
             | Inr common \<Rightarrow> Inr (Node (Dict tgt common) label_t [], attrs))
          else
            (case info_gain_dict self tgt attrs Map.empty of
               Inl e \<Rightarrow> Inl e
             | Inr info_gain \<Rightarrow>
                 (case max_key info_gain attrs of
                    Inl e \<Rightarrow> Inl e
                  | Inr attr \<Rightarrow>
                      (case column attr dataset of
                         Inl e \<Rightarrow> Inl e
                       | Inr a_column \<Rightarrow>
                           (case id3_loop self tgt attr dataset attrs (sort (remdups a_column)) of
                              Inl e \<Rightarrow> Inl e
                            | Inr (cs, attrs') \<Rightarrow> Inr (Node (Str attr) attr_t cs, attrs'))))))"
| "id3_loop self tgt attr dataset attrs [] = Inr ([], attrs)"
| "id3_loop self tgt attr dataset attrs (val # vals) =
     (let subset = filter (\<lambda>tup. tup attr = Some val) dataset
      in if subset = [] then
           (case column tgt subset of
              Inl e \<Rightarrow> Inl e
            | Inr subset_t_values \<Rightarrow>
                (case max_key (count_list subset_t_values) (set_iter subset_t_values) of
                   Inl e \<Rightarrow> Inl e
                 | Inr common \<Rightarrow>
                     (case id3_loop self tgt attr dataset attrs vals of
                        Inl e \<Rightarrow> Inl e
                      | Inr (cs, attrs') \<Rightarrow>
                          Inr (Node (Str val) val_t [Node (Dict tgt common) label_t []] # cs,
                               attrs'))))
         else
           (case id3 self tgt (remove_attr attr attrs) subset of
              Inl e \<Rightarrow> Inl e
            | Inr (sub, attrs1) \<Rightarrow>
                (case id3_loop self tgt attr dataset attrs1 vals of
                   Inl e \<Rightarrow> Inl e
                 | Inr (cs, attrs') \<Rightarrow> Inr (Node (Str val) val_t [sub] # cs, attrs'))))"
  by pat_completeness auto


text \<open>
  \<open>build_tree\<close> passes \<open>self.headers\<close> itself to \<open>_id3\<close>, so what \<open>_id3\<close> leaves of
  the list is what \<open>self.headers\<close> holds afterwards.
\<close>

definition build_tree :: "Dataset \<Rightarrow> error + (node \<times> Dataset)" where
  "build_tree self =
     (case id3 self (target self) (headers self) (data self) of
        Inl e \<Rightarrow> Inl e
      | Inr (t, attrs') \<Rightarrow> Inr (t, self\<lparr>headers := attrs', tree := Some t\<rparr>))"

section \<open>Rules and accuracy\<close>

text \<open>The generator \<open>paths(node, path)\<close>, as the list of what it yields; the default
  \<open>path=None\<close> is the empty list.\<close>

fun paths :: "node \<Rightarrow> nvalue list \<Rightarrow> nvalue list list" where
  "paths (Node v ty cs) path =
     (if is_leaf (Node v ty cs) then [path @ [v]] else [])
     @ concat (map (\<lambda>child. paths child (path @ [v])) cs)"

text \<open>\<open>zip(*(iter(xs),) * 2)\<close>: consecutive elements in pairs, an odd last one dropped.\<close>

fun pair_up :: "'a list \<Rightarrow> ('a \<times> 'a) list" where
  "pair_up (a # b # xs) = (a, b) # pair_up xs"
| "pair_up xs = []"

text \<open>The body of the loop of \<open>derive_ruleset\<close> for one path \<open>r\<close>.\<close>

definition make_rule :: "nvalue list \<Rightarrow> error + rule" where
  "make_rule r =
     (if r = [] then Inl IndexError
      else case last r of
             Str _ \<Rightarrow> Inl TypeError
           | Dict a v \<Rightarrow> Inr (pair_up (butlast r), (a, v)))"

fun make_rules :: "nvalue list list \<Rightarrow> error + rule list" where
  "make_rules [] = Inr []"
| "make_rules (r # rs) =
     (case make_rule r of
        Inl e \<Rightarrow> Inl e
      | Inr rule \<Rightarrow> (case make_rules rs of Inl e \<Rightarrow> Inl e | Inr rules \<Rightarrow> Inr (rule # rules)))"

definition derive_ruleset :: "Dataset \<Rightarrow> error + (rule list \<times> Dataset)" where
  "derive_ruleset self =
     (case (case tree self of
              None \<Rightarrow> build_tree self
            | Some t \<Rightarrow> Inr (t, self)) of
        Inl e \<Rightarrow> Inl e
      | Inr (t, self1) \<Rightarrow>
          (case make_rules (paths t []) of
             Inl e \<Rightarrow> Inl e
           | Inr rules \<Rightarrow> Inr (rules, self1\<lparr>ruleset := Some rules\<rparr>)))"

text \<open>\<open>eval_condition\<close> evaluates every test \<open>tup[attr] == val\<close> before it takes
  \<open>all\<close> of them.\<close>

fun eval_results :: "tuple \<Rightarrow> (nvalue \<times> nvalue) list \<Rightarrow> error + bool list" where
  "eval_results tup [] = Inr []"
| "eval_results tup ((a, v) # ps) =
     (case a of
        Dict _ _ \<Rightarrow> Inl TypeError
      | Str a' \<Rightarrow>
          (case tup a' of
             None \<Rightarrow> Inl KeyError
           | Some x \<Rightarrow>
               (case eval_results tup ps of
                  Inl e \<Rightarrow> Inl e
                | Inr results \<Rightarrow> Inr ((Str x = v) # results))))"

definition eval_condition :: "tuple \<Rightarrow> (nvalue \<times> nvalue) list \<Rightarrow> error + bool" where
  "eval_condition tup attr_val_pairs =
     (case eval_results tup attr_val_pairs of
        Inl e \<Rightarrow> Inl e
      | Inr results \<Rightarrow> Inr (list_all (\<lambda>b. b) results))"

text \<open>\<open>[t for t in ts if cond(t)]\<close> with a condition that may raise.\<close>

fun filter_err :: "('a \<Rightarrow> error + bool) \<Rightarrow> 'a list \<Rightarrow> error + 'a list" where
  "filter_err cond [] = Inr []"
| "filter_err cond (t # ts) =
     (case cond t of
        Inl e \<Rightarrow> Inl e
      | Inr b \<Rightarrow>
          (case filter_err cond ts of
             Inl e \<Rightarrow> Inl e
           | Inr ys \<Rightarrow> Inr (if b then t # ys else ys)))"

text \<open>\<open>t[self.target] == rule[2][self.target]\<close>, where \<open>rule[2]\<close> is the one-entry dict
  \<open>{attr: val}\<close>.\<close>

definition correct_pred :: "Dataset \<Rightarrow> rule \<Rightarrow> tuple \<Rightarrow> error + bool" where
  "correct_pred self rule t =
     (case t (target self) of
        None \<Rightarrow> Inl KeyError
      | Some x \<Rightarrow> if fst (snd rule) = target self then Inr (x = snd (snd rule)) else Inl KeyError)"

fun accuracy_loop :: "Dataset \<Rightarrow> nat \<Rightarrow> rule list \<Rightarrow> error + nat" where
  "accuracy_loop self total_correct [] = Inr total_correct"
| "accuracy_loop self total_correct (rule # rules) =
     (case filter_err (\<lambda>t. eval_condition t (fst rule)) (data self) of
        Inl e \<Rightarrow> Inl e
      | Inr data_subset \<Rightarrow>
          (case filter_err (correct_pred self rule) data_subset of
             Inl e \<Rightarrow> Inl e
           | Inr correct_preds \<Rightarrow>
               accuracy_loop self (total_correct + length correct_preds) rules))"

definition accuracy :: "Dataset \<Rightarrow> error + (real \<times> Dataset)" where
  "accuracy self =
     (case (case ruleset self of
              None \<Rightarrow> derive_ruleset self
            | Some rules \<Rightarrow> Inr (rules, self)) of
        Inl e \<Rightarrow> Inl e
      | Inr (rules, self1) \<Rightarrow>
          (case accuracy_loop self1 0 rules of
             Inl e \<Rightarrow> Inl e
           | Inr total_correct \<Rightarrow>
               if length (data self1) = 0 then Inl ZeroDivisionError
               else Inr (real total_correct / real (length (data self1)), self1)))"

section \<open>Observations on trees and calls\<close>

text \<open>
  For every path from a node down to a node without children, the values of the nodes of
  type \<open>'attr'\<close> on it, from the top: the attributes tested along the path.
\<close>

fun attr_paths :: "node \<Rightarrow> nvalue list list" where
  "attr_paths (Node v ty cs) =
     (if cs = [] then [if ty = attr_t then [v] else []]
      else map (\<lambda>p. if ty = attr_t then v # p else p) (concat (map attr_paths cs)))"

text \<open>
  The calls of the builder: a call of \<open>_id3\<close> (left) or the loop of a call at the values
  it still has to visit (right).  \<open>id3_calls c' c\<close> holds when \<open>c\<close> calls or continues
  with \<open>c'\<close>: a non-terminal \<open>_id3\<close> enters its loop; an iteration calls \<open>_id3\<close> on the
  tuples of the value, with the attribute removed from the list; the loop goes on with
  the list as the call left it (or, after the branch \<open>if not subset\<close>, unchanged).
\<close>

type_synonym call =
  "Dataset \<times> string \<times> string list \<times> tuple list
   + Dataset \<times> string \<times> string \<times> tuple list \<times> string list \<times> string list"

inductive id3_calls :: "call \<Rightarrow> call \<Rightarrow> bool" where
  enter_loop:
    "column tgt dataset = Inr t_values \<Longrightarrow> length (remdups t_values) \<noteq> 1 \<Longrightarrow> attrs \<noteq> [] \<Longrightarrow>
     info_gain_dict self tgt attrs Map.empty = Inr info_gain \<Longrightarrow>
     max_key info_gain attrs = Inr attr \<Longrightarrow> column attr dataset = Inr a_column \<Longrightarrow>
     id3_calls (Inr (self, tgt, attr, dataset, attrs, sort (remdups a_column)))
               (Inl (self, tgt, attrs, dataset))"
| next_after_fallback:
    "part = filter (\<lambda>tup. tup attr = Some val) dataset \<Longrightarrow> part = [] \<Longrightarrow>
     column tgt part = Inr subset_t_values \<Longrightarrow>
     max_key (count_list subset_t_values) (set_iter subset_t_values) = Inr common \<Longrightarrow>
     id3_calls (Inr (self, tgt, attr, dataset, attrs, vals))
               (Inr (self, tgt, attr, dataset, attrs, val # vals))"
| recurse:
    "part = filter (\<lambda>tup. tup attr = Some val) dataset \<Longrightarrow> part \<noteq> [] \<Longrightarrow>
     id3_calls (Inl (self, tgt, remove_attr attr attrs, part))
               (Inr (self, tgt, attr, dataset, attrs, val # vals))"
| next_after_recurse:
    "part = filter (\<lambda>tup. tup attr = Some val) dataset \<Longrightarrow> part \<noteq> [] \<Longrightarrow>
     id3 self tgt (remove_attr attr attrs) part = Inr (sub, attrs1) \<Longrightarrow>
     id3_calls (Inr (self, tgt, attr, dataset, attrs1, vals))
               (Inr (self, tgt, attr, dataset, attrs, val # vals))"

text \<open>The measure of the termination proof, and the number of values left.\<close>

fun call_measure :: "call \<Rightarrow> nat" where
  "call_measure (Inl (self, tgt, attrs, dataset)) = 2 * length attrs"
| "call_measure (Inr (self, tgt, attr, dataset, attrs, vals)) = 2 * length (remove_attr attr attrs) + 1"

fun call_vals :: "call \<Rightarrow> nat" where
  "call_vals (Inl _) = 0"
| "call_vals (Inr (self, tgt, attr, dataset, attrs, vals)) = length vals"

text \<open>The invariant of a table: every tuple has a value for the target and for every
  predictor attribute.\<close>

definition table_invariant :: "Dataset \<Rightarrow> bool" where
  "table_invariant self =
     (\<forall>tup\<in>set (data self). \<forall>a\<in>set (target self # headers self). tup a \<noteq> None)"

text \<open>The rules whose condition a tuple satisfies: \<open>eval_condition\<close> returns \<open>True\<close>.\<close>

definition matching_rules :: "tuple \<Rightarrow> rule list \<Rightarrow> rule list" where
  "matching_rules tup rules = filter (\<lambda>rule. eval_condition tup (fst rule) = Inr True) rules"

text \<open>
  The list \<open>data_subset\<close> that \<open>accuracy\<close> forms for a rule, and the list
  \<open>correct_preds\<close> it forms from it, when no test raises: the tuples of the table that
  satisfy the rule, and those of them whose target value is the rule's.
\<close>

definition data_subset :: "Dataset \<Rightarrow> rule \<Rightarrow> tuple list" where
  "data_subset self rule = filter (\<lambda>t. eval_condition t (fst rule) = Inr True) (data self)"

definition correct_preds :: "Dataset \<Rightarrow> rule \<Rightarrow> tuple list" where
  "correct_preds self rule =
     filter (\<lambda>t. t (target self) = Some (snd (snd rule))) (data_subset self rule)"

text \<open>A tuple is predicted correctly when a rule that it satisfies concludes its target
  value.\<close>

definition predicted_correctly :: "Dataset \<Rightarrow> rule list \<Rightarrow> tuple \<Rightarrow> bool" where
  "predicted_correctly self rules tup =
     (\<exists>rule\<in>set rules. eval_condition tup (fst rule) = Inr True
                       \<and> tup (target self) = Some (snd (snd rule)))"

text \<open>Every conjunct of every rule tests an attribute of \<open>A\<close> against a string.\<close>

definition conjuncts_in :: "string set \<Rightarrow> rule list \<Rightarrow> bool" where
  "conjuncts_in A rules =
     (\<forall>rule\<in>set rules. \<forall>p\<in>set (fst rule). \<exists>a v. p = (Str a, Str v) \<and> a \<in> A)"

text \<open>The tuples \<open>entropy\<close> works on: \<open>if not dataset: dataset = self.data\<close>.\<close>

definition effective :: "Dataset \<Rightarrow> tuple list option \<Rightarrow> tuple list" where
  "effective self dso = (case dso of None \<Rightarrow> data self | Some ds \<Rightarrow> if ds = [] then data self else ds)"

section \<open>Example tables\<close>

text \<open>
  Three attributes, four tuples, the target \<open>T\<close> balanced: over the whole table \<open>A\<close>
  has gain \<open>1/2\<close> and \<open>B\<close>, \<open>C\<close> have gain \<open>0\<close>; among the tuples with \<open>A = x\<close>
  the attribute \<open>C\<close> decides \<open>T\<close> and \<open>B\<close> is constant.  Every probability that
  occurs is \<open>1\<close>, \<open>1/2\<close> or \<open>1/4\<close>, so the floating-point computation is exact.
\<close>

definition xor_rows :: "tuple list" where
  "xor_rows =
     [[''A'' \<mapsto> ''x'', ''B'' \<mapsto> ''p'', ''C'' \<mapsto> ''c1'', ''T'' \<mapsto> ''yes''],
      [''A'' \<mapsto> ''x'', ''B'' \<mapsto> ''p'', ''C'' \<mapsto> ''c2'', ''T'' \<mapsto> ''no''],
      [''A'' \<mapsto> ''y'', ''B'' \<mapsto> ''p'', ''C'' \<mapsto> ''c2'', ''T'' \<mapsto> ''yes''],
      [''A'' \<mapsto> ''z'', ''B'' \<mapsto> ''p'', ''C'' \<mapsto> ''c1'', ''T'' \<mapsto> ''no'']]"

definition xor_table :: Dataset where
  "xor_table = \<lparr>data = xor_rows, headers = [''A'', ''B'', ''C''], target = ''T'',
                 tree = None, ruleset = None\<rparr>"

definition xor_subtree :: node where
  "xor_subtree =
     Node (Str ''B'') attr_t
       [Node (Str ''p'') val_t
          [Node (Str ''C'') attr_t
             [Node (Str ''c1'') val_t [Node (Dict ''T'' ''yes'') label_t []],
              Node (Str ''c2'') val_t [Node (Dict ''T'' ''no'') label_t []]]]]"

definition xor_tree :: node where
  "xor_tree =
     Node (Str ''A'') attr_t
       [Node (Str ''x'') val_t [xor_subtree],
        Node (Str ''y'') val_t [Node (Dict ''T'' ''yes'') label_t []],
        Node (Str ''z'') val_t [Node (Dict ''T'' ''no'') label_t []]]"

text \<open>The rules of the tree of the first example table.\<close>

definition xor_rules :: "rule list" where
  "xor_rules =
     [([(Str ''A'', Str ''x''), (Str ''B'', Str ''p''), (Str ''C'', Str ''c1'')], (''T'', ''yes'')),
      ([(Str ''A'', Str ''x''), (Str ''B'', Str ''p''), (Str ''C'', Str ''c2'')], (''T'', ''no'')),
      ([(Str ''A'', Str ''y'')], (''T'', ''yes'')),
      ([(Str ''A'', Str ''z'')], (''T'', ''no''))]"

text \<open>The first example table after \<open>build_tree\<close>, and after \<open>derive_ruleset\<close>.\<close>

definition xor_built :: Dataset where
  "xor_built = xor_table\<lparr>headers := [], tree := Some xor_tree\<rparr>"

definition xor_final :: Dataset where
  "xor_final = xor_built\<lparr>ruleset := Some xor_rules\<rparr>"

text \<open>
  Two attributes, eight tuples; both attributes have gain \<open>0\<close> over the whole table, and
  within each value of \<open>A\<close> the attribute \<open>B\<close> separates the target values.
\<close>

definition sibling_rows :: "tuple list" where
  "sibling_rows =
     [[''A'' \<mapsto> ''x'', ''B'' \<mapsto> ''p'', ''T'' \<mapsto> ''u''],
      [''A'' \<mapsto> ''x'', ''B'' \<mapsto> ''p'', ''T'' \<mapsto> ''u''],
      [''A'' \<mapsto> ''x'', ''B'' \<mapsto> ''p'', ''T'' \<mapsto> ''v''],
      [''A'' \<mapsto> ''x'', ''B'' \<mapsto> ''q'', ''T'' \<mapsto> ''w''],
      [''A'' \<mapsto> ''y'', ''B'' \<mapsto> ''p'', ''T'' \<mapsto> ''w''],
      [''A'' \<mapsto> ''y'', ''B'' \<mapsto> ''q'', ''T'' \<mapsto> ''u''],
      [''A'' \<mapsto> ''y'', ''B'' \<mapsto> ''q'', ''T'' \<mapsto> ''u''],
      [''A'' \<mapsto> ''y'', ''B'' \<mapsto> ''q'', ''T'' \<mapsto> ''v'']]"

definition sibling_table :: Dataset where
  "sibling_table = \<lparr>data = sibling_rows, headers = [''A'', ''B''], target = ''T'',
                     tree = None, ruleset = None\<rparr>"

definition sibling_tree :: node where
  "sibling_tree =
     Node (Str ''A'') attr_t
       [Node (Str ''x'') val_t
          [Node (Str ''B'') attr_t
             [Node (Str ''p'') val_t [Node (Dict ''T'' ''u'') label_t []],
              Node (Str ''q'') val_t [Node (Dict ''T'' ''w'') label_t []]]],
        Node (Str ''y'') val_t [Node (Dict ''T'' ''u'') label_t []]]"

text \<open>The second tuple list of the sibling table, by value of \<open>A\<close>.\<close>

definition sibling_y_rows :: "tuple list" where
  "sibling_y_rows = filter (\<lambda>tup. tup ''A'' = Some ''y'') sibling_rows"

text \<open>A header line that names the attribute \<open>A\<close> twice; the dict of a tuple has one
  entry for it.\<close>

definition dup_rows :: "tuple list" where
  "dup_rows =
     [[''A'' \<mapsto> ''x'', ''T'' \<mapsto> ''u''],
      [''A'' \<mapsto> ''x'', ''T'' \<mapsto> ''u''],
      [''A'' \<mapsto> ''x'', ''T'' \<mapsto> ''v''],
      [''A'' \<mapsto> ''x'', ''T'' \<mapsto> ''w'']]"

definition dup_table :: Dataset where
  "dup_table = \<lparr>data = dup_rows, headers = [''A'', ''A''], target = ''T'',
                 tree = None, ruleset = None\<rparr>"

definition dup_tree :: node where
  "dup_tree =
     Node (Str ''A'') attr_t
       [Node (Str ''x'') val_t
          [Node (Str ''A'') attr_t
             [Node (Str ''x'') val_t [Node (Dict ''T'' ''u'') label_t []]]]]"

text \<open>A table with a header line and no tuples.\<close>

definition empty_table :: Dataset where
  "empty_table = \<lparr>data = [], headers = [''A'', ''B''], target = ''T'',
                   tree = None, ruleset = None\<rparr>"






section \<open>Rational bounds of the exponential function\<close>





section \<open>Termination of the tree builder\<close>

lemma is_leaf_Node [simp]: "is_leaf (Node v ty cs) \<longleftrightarrow> ty = label_t"
  by (simp add: is_leaf_def)

lemma max_key_foldl_mem:
  "foldl (\<lambda>best y. if key best < key y then y else best) x xs \<in> insert x (set xs)"
  by (induction xs arbitrary: x) auto

lemma max_key_mem: "max_key key xs = Inr a \<Longrightarrow> a \<in> set xs"
  using max_key_foldl_mem[of key "hd xs" "tl xs"] by (cases xs) auto

lemma length_remove_attr: "length (remove_attr attr attrs) \<le> length attrs"
  by (simp add: remove_attr_def length_remove1)

lemma length_remove_attr_mem:
  "attr \<in> set attrs \<Longrightarrow> length (remove_attr attr attrs) < length attrs"
  using length_pos_if_in_set[of attr attrs] by (auto simp: remove_attr_def length_remove1)

text \<open>Wherever the builder is defined, the list it returns is no longer than the one it
  was given; the loop's later iterations rest on this.\<close>

lemma id3_dom_length:
  "id3_id3_loop_dom (Inl (self, tgt, attrs, dataset)) \<Longrightarrow>
     (\<forall>t a'. id3 self tgt attrs dataset = Inr (t, a') \<longrightarrow> length a' \<le> length attrs)"
  "id3_id3_loop_dom (Inr (self, tgt, attr, dataset, attrs, vals)) \<Longrightarrow>
     (\<forall>cs a'. id3_loop self tgt attr dataset attrs vals = Inr (cs, a') \<longrightarrow> length a' \<le> length attrs)"
proof (induct rule: id3_id3_loop.pinduct)
  case (1 self tgt attrs dataset)
  show ?case
    using 1(2) by (auto simp: id3.psimps[OF 1(1)] split: sum.splits if_splits prod.splits)
next
  case (2 self tgt attr dataset attrs)
  then show ?case by (simp add: id3_loop.psimps)
next
  case (3 self tgt attr dataset attrs val vals)
  show ?case
    using 3(2-) length_remove_attr[of attr attrs]
    by (auto simp: id3_loop.psimps(2)[OF 3(1)] Let_def split: sum.splits if_splits prod.splits)
       fastforce+
qed

text \<open>
  The measure: twice the length of \<open>attrs\<close> for a call of \<open>_id3\<close>; for the loop, twice
  the length of \<open>attrs\<close> once the chosen attribute is removed, plus one, and then the
  number of values still to visit.
\<close>

termination id3
proof (relation "measures
        [case_sum (\<lambda>(self, tgt, attrs, dataset). 2 * length attrs)
                  (\<lambda>(self, tgt, attr, dataset, attrs, vals). 2 * length (remove_attr attr attrs) + 1),
         case_sum (\<lambda>_. 0) (\<lambda>(self, tgt, attr, dataset, attrs, vals). length vals)]",
       goal_cases)
  case 1
  show ?case by simp
next
  case (2 self tgt attrs dataset t_values info_gain attr a_column)
  then show ?case
    using length_remove_attr_mem[OF max_key_mem, of info_gain attrs attr] by simp
next
  case (3 self tgt attr dataset attrs val vals subset subset_t_values common)
  then show ?case by simp
next
  case (4 self tgt attr dataset attrs val vals subset)
  then show ?case by simp
next
  case (5 self tgt attr dataset attrs val vals subset res sub attrs1)
  then show ?case
    using id3_dom_length(1)[of self tgt "remove_attr attr attrs" subset]
          length_remove_attr[of attr attrs1]
    by auto
qed

declare id3.simps [simp del] entropy.simps [simp del] entropy_dbl.simps [simp del]

section \<open>Evaluating the builder on the example tables\<close>

lemma log2_half: "log 2 (1 / 2) = - 1"
  by (simp add: log_divide)

lemma log2_quarter: "log 2 (1 / 4) = - 2"
proof -
  have "log 2 (2 * 2 :: real) = log 2 2 + log 2 2" by (rule log_mult_pos) simp_all
  then have "log 2 (4 :: real) = 2" by simp
  then show ?thesis by (simp add: log_divide)
qed

lemmas entropy_eval = entropy.simps entropy_sum_def dict_keys_def information_gain_def Let_def log2_half log2_quarter

lemma xor_fields:
  "data xor_table = xor_rows" "headers xor_table = [''A'', ''B'', ''C'']" "target xor_table = ''T''"
  "tree xor_table = None" "ruleset xor_table = None"
  by (simp_all add: xor_table_def)

lemma sibling_fields:
  "data sibling_table = sibling_rows" "headers sibling_table = [''A'', ''B'']" "target sibling_table = ''T''"
  "tree sibling_table = None" "ruleset sibling_table = None"
  by (simp_all add: sibling_table_def)

lemma xor_gains:
  "information_gain xor_table ''T'' ''A'' = Inr (1 / 2)"
  "information_gain xor_table ''T'' ''B'' = Inr 0"
  "information_gain xor_table ''T'' ''C'' = Inr 0"
  by (simp_all add: xor_table_def xor_rows_def entropy_eval)

lemma xor_subset_gains:
  "information_gain (xor_table\<lparr>data := filter (\<lambda>tup. tup ''A'' = Some ''x'') xor_rows\<rparr>) ''T'' ''B''
     = Inr 0"
  "information_gain (xor_table\<lparr>data := filter (\<lambda>tup. tup ''A'' = Some ''x'') xor_rows\<rparr>) ''T'' ''C''
     = Inr 1"
  by (simp_all add: xor_table_def xor_rows_def entropy_eval)

lemma xor_id3_sub:
  "id3 xor_table ''T'' [''B'', ''C''] (filter (\<lambda>tup. tup ''A'' = Some ''x'') xor_rows)
     = Inr (xor_subtree, [])"
  by (simp add: id3.simps xor_gains xor_rows_def set_iter_def remove_attr_def xor_subtree_def)

lemma xor_id3:
  "id3 xor_table ''T'' [''A'', ''B'', ''C''] xor_rows = Inr (xor_tree, [])"
  by (simp add: id3.simps xor_gains xor_rows_def set_iter_def remove_attr_def xor_subtree_def
        xor_tree_def)

lemma sibling_gains:
  "information_gain sibling_table ''T'' ''A'' = Inr 0"
  "information_gain sibling_table ''T'' ''B'' = Inr 0"
  by (simp_all add: sibling_table_def sibling_rows_def entropy_eval)

lemma sibling_id3:
  "id3 sibling_table ''T'' [''A'', ''B''] sibling_rows = Inr (sibling_tree, [])"
  by (simp add: id3.simps sibling_gains sibling_rows_def set_iter_def remove_attr_def
        sibling_tree_def)

lemma sibling_id3_y:
  "id3 sibling_table ''T'' [] sibling_y_rows = Inr (Node (Dict ''T'' ''u'') label_t [], [])"
  "id3 sibling_table ''T'' [''B''] sibling_y_rows
     = Inr (Node (Str ''B'') attr_t
              [Node (Str ''p'') val_t [Node (Dict ''T'' ''w'') label_t []],
               Node (Str ''q'') val_t [Node (Dict ''T'' ''u'') label_t []]], [])"
  by (simp_all add: id3.simps sibling_y_rows_def sibling_rows_def sibling_gains set_iter_def
        remove_attr_def)

lemma sibling_id3_again:
  "id3 sibling_table ''T'' [] sibling_rows = Inr (Node (Dict ''T'' ''u'') label_t [], [])"
  by (simp add: id3.simps sibling_rows_def set_iter_def)

lemma id3_no_attrs_self:
  "id3 self' tgt [] dataset = id3 self tgt [] dataset"
  by (cases "column tgt dataset") (simp_all add: id3.simps)


text \<open>
  C1.  In \<open>_id3\<close> the gain of an attribute is \<open>self.information_gain(target, a)\<close>, which
  reads \<open>self.data\<close>, the whole table, and never the \<open>dataset\<close> of the call.  On the
  first example table the call for the tuples with \<open>A = x\<close> has \<open>B\<close> and \<open>C\<close> left; over
  these tuples \<open>B\<close> has gain \<open>0\<close> and \<open>C\<close> has gain \<open>1\<close>, and the call chooses \<open>B\<close>.
\<close>

theorem id3_gain_over_whole_table:
  "build_tree xor_table = Inr (xor_tree, xor_table\<lparr>headers := [], tree := Some xor_tree\<rparr>)
   \<and> children xor_tree ! 0 = Node (Str ''x'') val_t [xor_subtree]
   \<and> id3 xor_table ''T'' [''B'', ''C''] (filter (\<lambda>tup. tup ''A'' = Some ''x'') (data xor_table))
       = Inr (xor_subtree, [])
   \<and> nd_value xor_subtree = Str ''B''
   \<and> information_gain
         (xor_table\<lparr>data := filter (\<lambda>tup. tup ''A'' = Some ''x'') (data xor_table)\<rparr>) ''T'' ''B''
       = Inr 0
   \<and> information_gain
         (xor_table\<lparr>data := filter (\<lambda>tup. tup ''A'' = Some ''x'') (data xor_table)\<rparr>) ''T'' ''C''
       = Inr 1"
  by (simp add: build_tree_def xor_id3 xor_id3_sub xor_subset_gains xor_fields)
     (simp add: xor_tree_def xor_subtree_def)

text \<open>
  C2.  \<open>attrs.remove(attr)\<close> changes the caller's list.  On the second example table the
  call of \<open>_id3\<close> with \<open>attrs = [A, B]\<close> returns with the list empty; the branch \<open>A = y\<close>,
  visited after the branch \<open>A = x\<close> has used \<open>B\<close>, is built from the empty list and is a
  single label, although \<open>B\<close> is not on its path; built from \<open>[B]\<close> the same tuples give
  a test of \<open>B\<close>.
\<close>

theorem id3_changes_attrs:
  "id3 sibling_table ''T'' [''A'', ''B''] (data sibling_table) = Inr (sibling_tree, [])
   \<and> children sibling_tree ! 1 = Node (Str ''y'') val_t [Node (Dict ''T'' ''u'') label_t []]
   \<and> id3 sibling_table ''T'' [] sibling_y_rows = Inr (Node (Dict ''T'' ''u'') label_t [], [])
   \<and> id3 sibling_table ''T'' [''B''] sibling_y_rows
       = Inr (Node (Str ''B'') attr_t
                [Node (Str ''p'') val_t [Node (Dict ''T'' ''w'') label_t []],
                 Node (Str ''q'') val_t [Node (Dict ''T'' ''u'') label_t []]], [])"
  by (simp add: sibling_id3 sibling_id3_y sibling_fields) (simp add: sibling_tree_def)

text \<open>
  C3.  \<open>build_tree\<close> hands \<open>self.headers\<close> to \<open>_id3\<close>, which empties it.  A second
  \<open>build_tree\<close> on the same object, its tuples untouched, starts from the empty list and
  returns a single label.
\<close>

theorem build_tree_twice:
  "build_tree sibling_table
     = Inr (sibling_tree, sibling_table\<lparr>headers := [], tree := Some sibling_tree\<rparr>)
   \<and> data (sibling_table\<lparr>headers := [], tree := Some sibling_tree\<rparr>) = data sibling_table
   \<and> build_tree (sibling_table\<lparr>headers := [], tree := Some sibling_tree\<rparr>)
     = Inr (Node (Dict ''T'' ''u'') label_t [],
            sibling_table\<lparr>headers := [], tree := Some (Node (Dict ''T'' ''u'') label_t [])\<rparr>)
   \<and> sibling_tree \<noteq> Node (Dict ''T'' ''u'') label_t []"
  by (simp add: build_tree_def sibling_id3 sibling_fields sibling_id3_again
        id3_no_attrs_self[of "sibling_table\<lparr>headers := [], tree := Some sibling_tree\<rparr>" _ _
          sibling_table])
     (simp add: sibling_tree_def)

section \<open>A table without tuples\<close>

lemma entropy_empty_data:
  assumes "data self = []"
  shows "entropy self r s None = Inr 0"
proof (cases s)
  case None
  then show ?thesis using assms by (simp add: entropy.simps entropy_sum_def dict_keys_def)
next
  case (Some a)
  then show ?thesis using assms by (simp add: entropy.simps entropy_sum_def dict_keys_def)
qed

lemma information_gain_empty_data:
  "data self = [] \<Longrightarrow> information_gain self r s = Inr 0"
  by (simp add: information_gain_def entropy_empty_data)

lemma info_gain_dict_empty_data:
  "data self = [] \<Longrightarrow> \<exists>m'. info_gain_dict self tgt attrs m = Inr m'"
  by (induction attrs arbitrary: m) (simp_all add: information_gain_empty_data)

lemma max_key_nonempty: "xs \<noteq> [] \<Longrightarrow> \<exists>a. max_key key xs = Inr a"
  by (cases xs) simp_all

lemma id3_empty_no_attrs: "id3 self tgt [] [] = Inl ValueError"
  by (simp add: id3.simps set_iter_def)

lemma id3_empty_data:
  assumes "data self = []" "attrs \<noteq> []"
  shows "\<exists>attr. id3 self tgt attrs [] = Inr (Node (Str attr) attr_t [], attrs)"
proof -
  obtain m where m: "info_gain_dict self tgt attrs Map.empty = Inr m"
    using info_gain_dict_empty_data[OF assms(1)] by blast
  obtain a where a: "max_key m attrs = Inr a"
    using max_key_nonempty[OF assms(2)] by blast
  show ?thesis using assms(2) m a by (simp add: id3.simps)
qed

lemma accuracy_empty_data:
  assumes "data self = []" "tree self = None" "ruleset self = None"
  shows "accuracy self = Inl (if headers self = [] then ValueError else ZeroDivisionError)"
proof (cases "headers self = []")
  case True
  then show ?thesis
    using assms by (simp add: accuracy_def derive_ruleset_def build_tree_def id3_empty_no_attrs)
next
  case False
  obtain attr where
    "id3 self (target self) (headers self) [] = Inr (Node (Str attr) attr_t [], headers self)"
    using id3_empty_data[OF assms(1) False] by blast
  then show ?thesis
    using assms False by (simp add: accuracy_def derive_ruleset_def build_tree_def)
qed

text \<open>
  C5, as the code has it.  \<open>ID3.py\<close> has no \<open>EmptyDatasetError\<close> and no check for an
  empty table.  On a freshly loaded table without tuples \<open>entropy\<close> returns \<open>0\<close> for any
  attributes (its loops do not run); \<open>accuracy\<close> builds the tree and the rules and then
  divides by \<open>len(self.data)\<close>: a \<open>ZeroDivisionError\<close>, or, when the table has no
  predictor attribute either, the \<open>ValueError\<close> of \<open>max\<close> over an empty set in \<open>_id3\<close>.
\<close>

theorem empty_table_outcome:
  assumes "data self = []" and "tree self = None" and "ruleset self = None"
  shows "entropy self r s None = Inr 0
         \<and> accuracy self = Inl (if headers self = [] then ValueError else ZeroDivisionError)"
  using assms by (simp add: entropy_empty_data accuracy_empty_data)

theorem empty_table_outcome_witness:
  "data empty_table = [] \<and> tree empty_table = None \<and> ruleset empty_table = None
   \<and> entropy empty_table ''T'' (Some ''A'') None = Inr 0
   \<and> accuracy empty_table = Inl ZeroDivisionError"
  using empty_table_outcome[of empty_table "''T''" "Some ''A''"]
  by (simp add: empty_table_def)

text \<open>C5, as stated, fails: the empty table gives a value from \<open>entropy\<close> and a
  \<open>ZeroDivisionError\<close> from \<open>accuracy\<close>.\<close>

theorem empty_table_no_EmptyDatasetError:
  "entropy empty_table ''T'' None None = Inr 0
   \<and> accuracy empty_table = Inl ZeroDivisionError
   \<and> accuracy empty_table \<noteq> Inl EmptyDatasetError"
  by (simp add: entropy_empty_data accuracy_empty_data empty_table_def)

section \<open>Invariants of the tree builder\<close>

lemma set_remove_attr: "set (remove_attr attr attrs) \<subseteq> set attrs"
  using set_remove1_subset[of attr attrs] by (auto simp: remove_attr_def)

lemma distinct_remove_attr: "distinct attrs \<Longrightarrow> distinct (remove_attr attr attrs)"
  by (simp add: remove_attr_def)

lemma notin_remove_attr: "distinct attrs \<Longrightarrow> attr \<notin> set (remove_attr attr attrs)"
  by (auto simp: remove_attr_def)

lemma id3_loop_Cons_Inr:
  assumes "id3_loop self tgt attr dataset attrs (val # vals) = Inr (cs, attrs')"
  shows "filter (\<lambda>tup. tup attr = Some val) dataset \<noteq> [] \<and>
         (\<exists>sub attrs1 cs'.
            id3 self tgt (remove_attr attr attrs) (filter (\<lambda>tup. tup attr = Some val) dataset)
              = Inr (sub, attrs1)
            \<and> id3_loop self tgt attr dataset attrs1 vals = Inr (cs', attrs')
            \<and> cs = Node (Str val) val_t [sub] # cs')"
  using assms by (auto simp: Let_def set_iter_def split: sum.splits prod.splits if_splits)

lemma id3_Inr_cases:
  assumes "id3 self tgt attrs dataset = Inr (t, attrs')"
  shows "(\<exists>v. t = Node (Dict tgt v) label_t [] \<and> attrs' = attrs) \<or>
         (\<exists>t_values info_gain attr a_column cs.
            column tgt dataset = Inr t_values \<and> length (remdups t_values) \<noteq> 1 \<and> attrs \<noteq> [] \<and>
            info_gain_dict self tgt attrs Map.empty = Inr info_gain \<and>
            max_key info_gain attrs = Inr attr \<and> column attr dataset = Inr a_column \<and>
            id3_loop self tgt attr dataset attrs (sort (remdups a_column)) = Inr (cs, attrs') \<and>
            t = Node (Str attr) attr_t cs)"
  using assms
  by (auto simp: id3.simps[of self tgt attrs dataset] split: sum.splits prod.splits if_splits)

lemma id3_attrs_shrink:
  "id3 self tgt attrs dataset = Inr (t, attrs') \<Longrightarrow>
     length attrs' \<le> length attrs \<and> set attrs' \<subseteq> set attrs \<and> (distinct attrs \<longrightarrow> distinct attrs')"
  "id3_loop self tgt attr dataset attrs vals = Inr (cs, attrs') \<Longrightarrow>
     length attrs' \<le> length attrs \<and> set attrs' \<subseteq> set attrs \<and> (distinct attrs \<longrightarrow> distinct attrs')"
proof (induction self tgt attrs dataset and self tgt attr dataset attrs vals
       arbitrary: t attrs' and cs attrs' rule: id3_id3_loop.induct)
  case (1 self tgt attrs dataset)
  from id3_Inr_cases[OF "1.prems"] "1.IH" show ?case by blast
next
  case (2 self tgt attr dataset attrs)
  then show ?case by simp
next
  case (3 self tgt attr dataset attrs val vals)
  let ?subset = "filter (\<lambda>tup. tup attr = Some val) dataset"
  from id3_loop_Cons_Inr[OF "3.prems"] obtain sub attrs1 cs' where
    ne: "?subset \<noteq> []" and
    a: "id3 self tgt (remove_attr attr attrs) ?subset = Inr (sub, attrs1)" and
    b: "id3_loop self tgt attr dataset attrs1 vals = Inr (cs', attrs')"
    by blast
  from "3.IH"(2)[OF refl ne a] "3.IH"(3)[OF refl ne a refl b]
    length_remove_attr[of attr attrs] set_remove_attr[of attr attrs] distinct_remove_attr[of attrs attr]
  show ?case by auto
qed

lemma call_measure_step:
  assumes "id3_calls x y"
  shows "call_measure x \<le> call_measure y
         \<and> (isl x \<or> isl y \<longrightarrow> call_measure x < call_measure y)
         \<and> (call_measure x = call_measure y \<longrightarrow> call_vals x < call_vals y)"
  using assms
proof (cases rule: id3_calls.cases)
  case (enter_loop tgt dataset t_values attrs self info_gain attr a_column)
  then show ?thesis
    using length_remove_attr_mem[OF max_key_mem, of info_gain attrs attr] by simp
next
  case (next_after_fallback part attr val dataset tgt subset_t_values common self attrs vals)
  then show ?thesis by simp
next
  case (recurse part attr val dataset self tgt attrs vals)
  then show ?thesis by simp
next
  case (next_after_recurse part attr val dataset self tgt attrs sub attrs1 vals)
  from id3_attrs_shrink(1)[OF next_after_recurse(5)] next_after_recurse(1,2)
  show ?thesis
    using length_remove_attr[of attr attrs1] by simp
qed

lemma call_measure_tranclp:
  assumes "tranclp id3_calls x y"
  shows "call_measure x \<le> call_measure y \<and> (isl x \<longrightarrow> call_measure x < call_measure y)"
  using assms
proof (induction rule: tranclp_induct)
  case (base y)
  then show ?case using call_measure_step[of x y] by simp
next
  case (step y z)
  then show ?case using call_measure_step[of y z] by auto
qed

lemma wfP_id3_calls: "wfP id3_calls"
proof -
  have "wf (measures [call_measure, call_vals])" by simp
  moreover have "{(x, y). id3_calls x y} \<subseteq> measures [call_measure, call_vals]"
  proof clarify
    fix x y assume "id3_calls x y"
    from call_measure_step[OF this]
    have "call_measure x < call_measure y
          \<or> (call_measure x = call_measure y \<and> call_vals x < call_vals y)"
      by linarith
    then show "(x, y) \<in> measures [call_measure, call_vals]" by auto
  qed
  ultimately have "wf {(x, y). id3_calls x y}" by (rule wf_subset)
  then show ?thesis by (simp add: wfp_def)
qed

text \<open>Every recursive call of the definition of \<open>id3\<close> and \<open>id3_loop\<close> is one of \<open>id3_calls\<close>:
  the relation passes for the call relation in the termination rule of the definition.\<close>

lemma id3_calls_cover: "All id3_id3_loop_dom"
proof (rule "id3_id3_loop.termination"[of "{(x, y). id3_calls x y}"], goal_cases)
  case 1
  then show ?case using wfP_id3_calls by (simp add: wfp_def)
next
  case (2 self tgt attrs dataset b ba bb bc)
  then show ?case by (auto intro: id3_calls.enter_loop)
next
  case (3 self tgt attr dataset attrs val vals x b ba)
  then show ?case by (auto intro: id3_calls.next_after_fallback)
next
  case (4 self tgt attr dataset attrs val vals x)
  then show ?case by (auto intro: id3_calls.recurse)
next
  case (5 self tgt attr dataset attrs val vals x b xa y)
  then show ?case by (auto intro: id3_calls.next_after_recurse)
qed


lemma column_total:
  "\<forall>t\<in>set ds. t r \<noteq> None \<Longrightarrow> column r ds = Inr (map (\<lambda>t. the (t r)) ds)"
  by (induction ds) auto

lemma column_InrD:
  "column r ds = Inr vs \<Longrightarrow> (\<forall>t\<in>set ds. t r \<noteq> None) \<and> vs = map (\<lambda>t. the (t r)) ds"
  by (induction ds arbitrary: vs) (auto split: option.splits sum.splits)

lemma column_Inr_iff:
  "column r ds = Inr vs \<longleftrightarrow> (\<forall>t\<in>set ds. t r \<noteq> None) \<and> vs = map (\<lambda>t. the (t r)) ds"
  using column_total[of ds r] column_InrD[of r ds vs] by auto

lemma column_Inl: "column r ds = Inl e \<Longrightarrow> e = KeyError"
  by (induction ds) (auto split: option.splits sum.splits)

lemma column_length: "column r ds = Inr vs \<Longrightarrow> length vs = length ds"
  by (simp add: column_Inr_iff)

lemma set_set_iter: "set (set_iter xs) = set xs"
  by (simp add: set_iter_def)

lemma set_iter_Nil: "set_iter xs = [] \<longleftrightarrow> xs = []"
  using set_set_iter[of xs] by (metis set_empty)

lemma entropy_None_Inl: "entropy self r None dso = Inl e \<Longrightarrow> e = KeyError"
  by (auto simp: entropy.simps Let_def split: sum.splits dest: column_Inl)

lemma entropy_loop_Inl:
  "entropy_loop self r s dataset s_values acc vals = Inl e \<Longrightarrow> e = KeyError"
  by (induction vals arbitrary: acc) (auto simp: Let_def split: sum.splits dest: entropy_None_Inl)

lemma entropy_Inl: "entropy self r so dso = Inl e \<Longrightarrow> e = KeyError"
proof (cases so)
  case None
  then show "entropy self r so dso = Inl e \<Longrightarrow> e = KeyError" using entropy_None_Inl by simp
next
  case (Some s)
  assume "entropy self r so dso = Inl e"
  with Some show "e = KeyError"
    by (auto simp: entropy.simps(2) Let_def split: sum.splits if_splits
             dest: entropy_None_Inl entropy_loop_Inl column_Inl)
qed

lemma information_gain_Inl: "information_gain self r s = Inl e \<Longrightarrow> e = KeyError"
  by (auto simp: information_gain_def split: sum.splits dest: entropy_Inl)

lemma info_gain_dict_Inl: "info_gain_dict self tgt attrs m = Inl e \<Longrightarrow> e = KeyError"
  by (induction attrs arbitrary: m) (auto split: sum.splits dest: information_gain_Inl)

lemma observed_value_subset:
  assumes "column attr dataset = Inr a_column" and "val \<in> set (sort (remdups a_column))"
  shows "filter (\<lambda>tup. tup attr = Some val) dataset \<noteq> []"
proof -
  from assms have "val \<in> (\<lambda>t. the (t attr)) ` set dataset" and "\<forall>t\<in>set dataset. t attr \<noteq> None"
    by (auto simp: column_Inr_iff)
  then obtain t where "t \<in> set dataset" "t attr = Some val" by force
  then show ?thesis by (auto simp: filter_empty_conv)
qed

lemma id3_only_KeyError:
  "dataset \<noteq> [] \<Longrightarrow> id3 self tgt attrs dataset = Inl e \<Longrightarrow> e = KeyError"
  "(\<forall>v\<in>set vals. filter (\<lambda>tup. tup attr = Some v) dataset \<noteq> []) \<Longrightarrow>
     id3_loop self tgt attr dataset attrs vals = Inl e \<Longrightarrow> e = KeyError"
proof (induction self tgt attrs dataset and self tgt attr dataset attrs vals
       arbitrary: e and e rule: id3_id3_loop.induct)
  case (1 self tgt attrs dataset)
  show ?case
  proof (cases "column tgt dataset")
    case (Inl e')
    with "1.prems" show ?thesis by (auto simp: id3.simps[of self tgt attrs dataset] dest: column_Inl)
  next
    case (Inr t_values)
    have "t_values \<noteq> []"
      using column_length[OF Inr] "1.prems"(1) by auto
    then have ne: "set_iter t_values \<noteq> []"
      by (simp add: set_iter_Nil)
    show ?thesis
    proof (cases "length (remdups t_values) = 1 \<or> attrs = []")
      case True
      with "1.prems" Inr max_key_nonempty[OF ne, of "count_list t_values"] show ?thesis
        by (auto simp: id3.simps[of self tgt attrs dataset] split: sum.splits if_splits)
    next
      case False
      show ?thesis
      proof (cases "info_gain_dict self tgt attrs Map.empty")
        case (Inl e')
        with "1.prems" Inr False info_gain_dict_Inl[OF Inl] show ?thesis
          by (simp add: id3.simps[of self tgt attrs dataset])
      next
        case ig: (Inr info_gain)
        from False max_key_nonempty[of attrs info_gain] obtain attr where
          mk: "max_key info_gain attrs = Inr attr" by blast
        show ?thesis
        proof (cases "column attr dataset")
          case (Inl e')
          with "1.prems" Inr False ig mk column_Inl[OF Inl] show ?thesis
            by (simp add: id3.simps[of self tgt attrs dataset])
        next
          case ac: (Inr a_column)
          have "\<forall>v\<in>set (sort (remdups a_column)). filter (\<lambda>tup. tup attr = Some v) dataset \<noteq> []"
            using observed_value_subset[OF ac] by blast
          from "1.IH"[OF Inr _ _ ig mk ac this] False "1.prems" Inr ig mk ac
          show ?thesis
            by (auto simp: id3.simps[of self tgt attrs dataset] split: sum.splits)
        qed
      qed
    qed
  qed
next
  case (2 self tgt attr dataset attrs)
  then show ?case by simp
next
  case (3 self tgt attr dataset attrs val vals)
  let ?subset = "filter (\<lambda>tup. tup attr = Some val) dataset"
  from "3.prems"(1) have ne: "?subset \<noteq> []" and
    rest: "\<forall>v\<in>set vals. filter (\<lambda>tup. tup attr = Some v) dataset \<noteq> []" by simp_all
  show ?case
  proof (cases "id3 self tgt (remove_attr attr attrs) ?subset")
    case (Inl e')
    with "3.prems"(2) ne "3.IH"(2)[OF refl ne ne Inl] show ?thesis by (simp add: Let_def)
  next
    case (Inr res)
    obtain sub attrs1 where res: "res = (sub, attrs1)" by (cases res)
    from "3.IH"(3)[OF refl ne Inr[unfolded res] refl rest] "3.prems"(2) ne Inr res
    show ?thesis by (auto simp: Let_def split: sum.splits)
  qed
qed

lemma attr_paths_val_node [simp]: "attr_paths (Node v val_t [sub]) = attr_paths sub"
  by (simp add: map_idI)

lemma attr_paths_leaf [simp]: "attr_paths (Node v label_t []) = [[]]"
  by simp

lemma attr_paths_attr_node:
  "p \<in> set (attr_paths (Node v attr_t cs)) \<Longrightarrow>
     p = [v] \<or> (\<exists>c\<in>set cs. \<exists>q\<in>set (attr_paths c). p = v # q)"
  by (auto split: if_splits)

lemma id3_depth:
  "id3 self tgt attrs dataset = Inr (t, attrs') \<Longrightarrow>
     \<forall>p\<in>set (attr_paths t). length p \<le> length attrs"
  "id3_loop self tgt attr dataset attrs vals = Inr (cs, attrs') \<Longrightarrow>
     \<forall>c\<in>set cs. \<forall>p\<in>set (attr_paths c). length p \<le> length (remove_attr attr attrs)"
proof (induction self tgt attrs dataset and self tgt attr dataset attrs vals
       arbitrary: t attrs' and cs attrs' rule: id3_id3_loop.induct)
  case (1 self tgt attrs dataset)
  from id3_Inr_cases[OF "1.prems"] show ?case
  proof (elim disjE exE conjE)
    fix v assume "t = Node (Dict tgt v) label_t []"
    then show ?thesis by simp
  next
    fix t_values info_gain attr a_column cs
    assume a: "column tgt dataset = Inr t_values" "length (remdups t_values) \<noteq> 1" "attrs \<noteq> []"
      "info_gain_dict self tgt attrs Map.empty = Inr info_gain" "max_key info_gain attrs = Inr attr"
      "column attr dataset = Inr a_column"
      "id3_loop self tgt attr dataset attrs (sort (remdups a_column)) = Inr (cs, attrs')"
      and t: "t = Node (Str attr) attr_t cs"
    from "1.IH"[OF a] have
      ih: "\<forall>c\<in>set cs. \<forall>p\<in>set (attr_paths c). length p \<le> length (remove_attr attr attrs)" .
    have lt: "length (remove_attr attr attrs) < length attrs"
      using length_remove_attr_mem[OF max_key_mem[OF a(5)]] .
    show ?thesis
    proof
      fix p assume "p \<in> set (attr_paths t)"
      from attr_paths_attr_node[OF this[unfolded t]] ih lt a(3) show "length p \<le> length attrs"
        by (cases attrs) fastforce+
    qed
  qed
next
  case (2 self tgt attr dataset attrs)
  then show ?case by simp
next
  case (3 self tgt attr dataset attrs val vals)
  let ?subset = "filter (\<lambda>tup. tup attr = Some val) dataset"
  from id3_loop_Cons_Inr[OF "3.prems"] obtain sub attrs1 cs' where
    ne: "?subset \<noteq> []" and
    a: "id3 self tgt (remove_attr attr attrs) ?subset = Inr (sub, attrs1)" and
    b: "id3_loop self tgt attr dataset attrs1 vals = Inr (cs', attrs')" and
    cs: "cs = Node (Str val) val_t [sub] # cs'"
    by blast
  from id3_attrs_shrink(1)[OF a] have "length (remove_attr attr attrs1) \<le> length (remove_attr attr attrs)"
    using length_remove_attr[of attr attrs1] by simp
  with "3.IH"(2)[OF refl ne a] "3.IH"(3)[OF refl ne a refl b] cs
  show ?case by fastforce
qed

lemma set_remove_attr_distinct:
  "distinct attrs \<Longrightarrow> set (remove_attr attr attrs) \<subseteq> set attrs - {attr}"
  by (auto simp: remove_attr_def)

lemma id3_tests_distinct:
  "distinct attrs \<Longrightarrow> id3 self tgt attrs dataset = Inr (t, attrs') \<Longrightarrow>
     \<forall>p\<in>set (attr_paths t). distinct p \<and> set p \<subseteq> Str ` set attrs"
  "distinct attrs \<Longrightarrow> id3_loop self tgt attr dataset attrs vals = Inr (cs, attrs') \<Longrightarrow>
     \<forall>c\<in>set cs. \<forall>p\<in>set (attr_paths c). distinct p \<and> set p \<subseteq> Str ` (set attrs - {attr})"
proof (induction self tgt attrs dataset and self tgt attr dataset attrs vals
       arbitrary: t attrs' and cs attrs' rule: id3_id3_loop.induct)
  case (1 self tgt attrs dataset)
  from id3_Inr_cases[OF "1.prems"(2)] show ?case
  proof (elim disjE exE conjE)
    fix v assume "t = Node (Dict tgt v) label_t []"
    then show ?thesis by simp
  next
    fix t_values info_gain attr a_column cs
    assume a: "column tgt dataset = Inr t_values" "length (remdups t_values) \<noteq> 1" "attrs \<noteq> []"
      "info_gain_dict self tgt attrs Map.empty = Inr info_gain" "max_key info_gain attrs = Inr attr"
      "column attr dataset = Inr a_column"
      and l: "id3_loop self tgt attr dataset attrs (sort (remdups a_column)) = Inr (cs, attrs')"
      and t: "t = Node (Str attr) attr_t cs"
    from "1.IH"[OF a "1.prems"(1) l] have
      ih: "\<forall>c\<in>set cs. \<forall>p\<in>set (attr_paths c). distinct p \<and> set p \<subseteq> Str ` (set attrs - {attr})" .
    have mem: "attr \<in> set attrs" using max_key_mem[OF a(5)] .
    show ?thesis
    proof
      fix p assume "p \<in> set (attr_paths t)"
      from attr_paths_attr_node[OF this[unfolded t]]
      show "distinct p \<and> set p \<subseteq> Str ` set attrs"
      proof (elim disjE bexE)
        assume "p = [Str attr]"
        with mem show ?thesis by simp
      next
        fix c q assume c: "c \<in> set cs" and q: "q \<in> set (attr_paths c)" and p: "p = Str attr # q"
        from ih c q have "distinct q" and "set q \<subseteq> Str ` (set attrs - {attr})" by blast+
        with p mem show ?thesis by auto
      qed
    qed
  qed
next
  case (2 self tgt attr dataset attrs)
  then show ?case by simp
next
  case (3 self tgt attr dataset attrs val vals)
  let ?subset = "filter (\<lambda>tup. tup attr = Some val) dataset"
  from id3_loop_Cons_Inr[OF "3.prems"(2)] obtain sub attrs1 cs' where
    ne: "?subset \<noteq> []" and
    a: "id3 self tgt (remove_attr attr attrs) ?subset = Inr (sub, attrs1)" and
    b: "id3_loop self tgt attr dataset attrs1 vals = Inr (cs', attrs')" and
    cs: "cs = Node (Str val) val_t [sub] # cs'"
    by blast
  have d: "distinct (remove_attr attr attrs)" using "3.prems"(1) by (rule distinct_remove_attr)
  from id3_attrs_shrink(1)[OF a] d have d1: "distinct attrs1"
    and s1: "set attrs1 \<subseteq> set (remove_attr attr attrs)" by simp_all
  from s1 set_remove_attr_distinct[OF "3.prems"(1), of attr]
  have s2: "set attrs1 \<subseteq> set attrs - {attr}" by blast
  from "3.IH"(2)[OF refl ne d a] set_remove_attr_distinct[OF "3.prems"(1), of attr]
  have sub: "\<forall>p\<in>set (attr_paths sub). distinct p \<and> set p \<subseteq> Str ` (set attrs - {attr})"
    by blast
  from "3.IH"(3)[OF refl ne a refl d1 b] s2
  have rest: "\<forall>c\<in>set cs'. \<forall>p\<in>set (attr_paths c). distinct p \<and> set p \<subseteq> Str ` (set attrs - {attr})"
    by blast
  from sub rest cs show ?case by simp
qed


text \<open>
  C6.  The builder terminates on every input: every argument lies in the domain of the
  definition of \<open>id3\<close>, and the relation of its calls is well-founded, so no chain of
  nested calls is infinite.  Every call of \<open>_id3\<close> made, at any depth, below a call of
  \<open>_id3\<close> has a strictly shorter list of remaining attributes.  On every path of the
  tree returned, the number of attribute tests is at most the number of attributes given.
\<close>

theorem id3_terminates:
  "id3_id3_loop_dom (Inl (self, tgt, attrs, dataset))
   \<and> wfP id3_calls
   \<and> (tranclp id3_calls (Inl (self', tgt', attrs', dataset')) (Inl (self, tgt, attrs, dataset))
        \<longrightarrow> length attrs' < length attrs)
   \<and> (id3 self tgt attrs dataset = Inr (t, attrs1)
        \<longrightarrow> (\<forall>p\<in>set (attr_paths t). length p \<le> length attrs))"
proof (intro conjI impI)
  show "id3_id3_loop_dom (Inl (self, tgt, attrs, dataset))"
    using id3_calls_cover by blast
  show "wfP id3_calls" by (rule wfP_id3_calls)
next
  assume "tranclp id3_calls (Inl (self', tgt', attrs', dataset')) (Inl (self, tgt, attrs, dataset))"
  from call_measure_tranclp[OF this] show "length attrs' < length attrs" by simp
next
  assume "id3 self tgt attrs dataset = Inr (t, attrs1)"
  then show "\<forall>p\<in>set (attr_paths t). length p \<le> length attrs" by (rule id3_depth(1))
qed

lemma xor_calls:
  "tranclp id3_calls
     (Inl (xor_table, ''T'', [''B'', ''C''], filter (\<lambda>tup. tup ''A'' = Some ''x'') xor_rows))
     (Inl (xor_table, ''T'', [''A'', ''B'', ''C''], xor_rows))"
proof -
  have "id3_calls (Inr (xor_table, ''T'', ''A'', xor_rows, [''A'', ''B'', ''C''],
                        sort (remdups [''x'', ''x'', ''y'', ''z''])))
                  (Inl (xor_table, ''T'', [''A'', ''B'', ''C''], xor_rows))"
    by (rule id3_calls.enter_loop[where t_values = "[''yes'', ''no'', ''yes'', ''no'']"
            and info_gain = "[''A'' \<mapsto> 1 / 2, ''B'' \<mapsto> 0, ''C'' \<mapsto> 0]"])
       (simp_all add: xor_rows_def xor_gains)
  then have 1: "id3_calls (Inr (xor_table, ''T'', ''A'', xor_rows, [''A'', ''B'', ''C''],
                        [''x'', ''y'', ''z'']))
                  (Inl (xor_table, ''T'', [''A'', ''B'', ''C''], xor_rows))"
    by simp
  have "id3_calls (Inl (xor_table, ''T'', remove_attr ''A'' [''A'', ''B'', ''C''],
                        filter (\<lambda>tup. tup ''A'' = Some ''x'') xor_rows))
                  (Inr (xor_table, ''T'', ''A'', xor_rows, [''A'', ''B'', ''C''],
                        [''x'', ''y'', ''z'']))"
    by (rule id3_calls.recurse) (simp_all add: xor_rows_def)
  then have 2: "id3_calls (Inl (xor_table, ''T'', [''B'', ''C''],
                        filter (\<lambda>tup. tup ''A'' = Some ''x'') xor_rows))
                  (Inr (xor_table, ''T'', ''A'', xor_rows, [''A'', ''B'', ''C''],
                        [''x'', ''y'', ''z'']))"
    by (simp add: remove_attr_def)
  from 2 1 show ?thesis by (rule tranclp.intros(2)[OF tranclp.intros(1)])
qed

lemma xor_attr_paths:
  "attr_paths xor_tree =
     [[Str ''A'', Str ''B'', Str ''C''], [Str ''A'', Str ''B'', Str ''C''], [Str ''A''], [Str ''A'']]"
  by (simp add: xor_tree_def xor_subtree_def)

theorem id3_terminates_witness:
  "tranclp id3_calls
     (Inl (xor_table, ''T'', [''B'', ''C''], filter (\<lambda>tup. tup ''A'' = Some ''x'') xor_rows))
     (Inl (xor_table, ''T'', [''A'', ''B'', ''C''], xor_rows))
   \<and> length [''B'', ''C''] < length [''A'', ''B'', ''C'']
   \<and> id3 xor_table ''T'' [''A'', ''B'', ''C''] xor_rows = Inr (xor_tree, [])
   \<and> list_all (\<lambda>p. length p \<le> length [''A'', ''B'', ''C'']) (attr_paths xor_tree)"
  using id3_terminates[of xor_table "''T''" "[''A'', ''B'', ''C'']" xor_rows xor_table "''T''"
          "[''B'', ''C'']" "filter (\<lambda>tup. tup ''A'' = Some ''x'') xor_rows" xor_tree "[]"]
        xor_calls xor_id3
  by (simp add: list_all_iff)


text \<open>
  C9, as the code has it.  When the names in \<open>attrs\<close> are pairwise distinct, the
  attributes tested along any path of the tree returned are pairwise distinct, and all
  of them are names of \<open>attrs\<close>.
\<close>

theorem id3_no_attribute_twice:
  assumes "distinct attrs" and "id3 self tgt attrs dataset = Inr (t, attrs')"
  shows "\<forall>p\<in>set (attr_paths t). distinct p \<and> set p \<subseteq> Str ` set attrs"
  using assms by (rule id3_tests_distinct(1))

theorem id3_no_attribute_twice_witness:
  "distinct [''A'', ''B'', ''C'']
   \<and> id3 xor_table ''T'' [''A'', ''B'', ''C''] xor_rows = Inr (xor_tree, [])
   \<and> list_all (\<lambda>p. distinct p \<and> set p \<subseteq> Str ` set [''A'', ''B'', ''C'']) (attr_paths xor_tree)"
  using id3_no_attribute_twice[of "[''A'', ''B'', ''C'']" xor_table "''T''" xor_rows xor_tree "[]"]
        xor_id3
  by (simp add: list_all_iff)

lemma dup_fields:
  "data dup_table = dup_rows" "headers dup_table = [''A'', ''A'']" "target dup_table = ''T''"
  by (simp_all add: dup_table_def)

lemma dup_gain: "information_gain dup_table ''T'' ''A'' = Inr 0"
  by (simp add: dup_table_def dup_rows_def entropy_eval)

lemma dup_id3: "id3 dup_table ''T'' [''A'', ''A''] dup_rows = Inr (dup_tree, [])"
  by (simp add: id3.simps dup_gain dup_rows_def set_iter_def remove_attr_def dup_tree_def)

text \<open>
  C9, as stated, fails: \<open>attrs.remove(attr)\<close> removes one occurrence.  With the header
  \<open>A, A\<close> the list still holds \<open>A\<close> in the recursive call, and the tree tests \<open>A\<close>
  twice on its only path.
\<close>

theorem id3_attribute_twice:
  "build_tree dup_table = Inr (dup_tree, dup_table\<lparr>headers := [], tree := Some dup_tree\<rparr>)
   \<and> attr_paths dup_tree = [[Str ''A'', Str ''A'']]
   \<and> \<not> list_all distinct (attr_paths dup_tree)"
  by (simp add: build_tree_def dup_fields dup_id3) (simp add: dup_tree_def)

text \<open>The branch \<open>if not subset\<close> takes \<open>max\<close> over the empty set of target values:
  it can only raise \<open>ValueError\<close>.\<close>

lemma fallback_raises:
  "filter (\<lambda>tup. tup attr = Some val) dataset = [] \<Longrightarrow>
     id3_loop self tgt attr dataset attrs (val # vals) = Inl ValueError"
  by (simp add: set_iter_def)

text \<open>
  C10.  The values the loop visits are those of the column of the chosen attribute in
  \<open>dataset\<close>, so the tuples of each value are not empty.  The branch \<open>if not subset\<close>
  would raise \<open>ValueError\<close>; \<open>_id3\<close> on a non-empty \<open>dataset\<close> never does.
\<close>

theorem fallback_never_runs:
  "(column attr dataset = Inr a_column \<longrightarrow>
      (\<forall>val\<in>set (sort (remdups a_column)). filter (\<lambda>tup. tup attr = Some val) dataset \<noteq> []))
   \<and> (filter (\<lambda>tup. tup attr = Some val) dataset = [] \<longrightarrow>
        id3_loop self tgt attr dataset attrs (val # vals) = Inl ValueError)
   \<and> (dataset \<noteq> [] \<longrightarrow> id3 self tgt attrs dataset \<noteq> Inl ValueError)"
  using observed_value_subset[of attr dataset a_column] fallback_raises[of attr val dataset]
        id3_only_KeyError(1)[of dataset self tgt attrs ValueError]
  by blast

theorem fallback_never_runs_witness:
  "column ''A'' xor_rows = Inr [''x'', ''x'', ''y'', ''z'']
   \<and> list_all (\<lambda>val. filter (\<lambda>tup. tup ''A'' = Some val) xor_rows \<noteq> [])
        (sort (remdups [''x'', ''x'', ''y'', ''z'']))
   \<and> filter (\<lambda>tup. tup ''A'' = Some ''w'') xor_rows = []
   \<and> id3_loop xor_table ''T'' ''A'' xor_rows [''A'', ''B'', ''C''] [''w''] = Inl ValueError
   \<and> xor_rows \<noteq> []
   \<and> id3 xor_table ''T'' [''A'', ''B'', ''C''] xor_rows \<noteq> Inl ValueError"
proof -
  have c: "column ''A'' xor_rows = Inr [''x'', ''x'', ''y'', ''z'']"
    and e: "filter (\<lambda>tup. tup ''A'' = Some ''w'') xor_rows = []"
    and n: "xor_rows \<noteq> []"
    by (simp_all add: xor_rows_def)
  from fallback_never_runs[of "''A''" xor_rows "[''x'', ''x'', ''y'', ''z'']" "''w''" xor_table
         "''T''" "[''A'', ''B'', ''C'']" "[]"] c e n
  show ?thesis by (simp add: list_all_iff del: id3_loop.simps)
qed

section \<open>The rules partition the table\<close>

lemma paths_prefix: "paths n pre = map ((@) pre) (paths n [])"
proof (induction n arbitrary: pre)
  case (Node v ty cs)
  have a: "\<And>c x. c \<in> set cs \<Longrightarrow> paths c x = map ((@) x) (paths c [])"
    using Node.IH by blast
  have "concat (map (\<lambda>child. paths child (pre @ [v])) cs)
        = map ((@) pre) (concat (map (\<lambda>child. paths child [v]) cs))"
  proof -
    have "map (\<lambda>child. paths child (pre @ [v])) cs
          = map (\<lambda>child. map ((@) pre) (paths child [v])) cs"
    proof (rule map_cong[OF refl])
      fix c assume c: "c \<in> set cs"
      have "paths c (pre @ [v]) = map ((@) (pre @ [v])) (paths c [])" using a[OF c] .
      also have "\<dots> = map ((@) pre) (map ((@) [v]) (paths c []))" by simp
      also have "\<dots> = map ((@) pre) (paths c [v])" using a[OF c, of "[v]"] by simp
      finally show "paths c (pre @ [v]) = map ((@) pre) (paths c [v])" .
    qed
    then have "concat (map (\<lambda>child. paths child (pre @ [v])) cs)
               = concat (map (\<lambda>child. map ((@) pre) (paths child [v])) cs)"
      by (rule arg_cong)
    also have "\<dots> = map ((@) pre) (concat (map (\<lambda>child. paths child [v]) cs))"
      by (simp add: map_concat comp_def)
    finally show ?thesis .
  qed
  then show ?case by simp
qed

lemma paths_nonempty: "q \<in> set (paths n pre) \<Longrightarrow> q \<noteq> []"
  by (induction n arbitrary: pre q) (auto split: if_splits)

lemma make_rule_prefix:
  "q \<noteq> [] \<Longrightarrow>
   make_rule (a # b # q) =
     (case make_rule q of Inl e \<Rightarrow> Inl e | Inr rule \<Rightarrow> Inr ((a, b) # fst rule, snd rule))"
  by (auto simp: make_rule_def split: nvalue.splits)

lemma make_rules_append:
  "make_rules (xs @ ys) =
     (case make_rules xs of
        Inl e \<Rightarrow> Inl e
      | Inr rs \<Rightarrow> (case make_rules ys of Inl e \<Rightarrow> Inl e | Inr rs' \<Rightarrow> Inr (rs @ rs')))"
  by (induction xs) (auto split: sum.splits)

lemma make_rules_prefix:
  "\<forall>q\<in>set qs. q \<noteq> [] \<Longrightarrow> make_rules qs = Inr rules \<Longrightarrow>
   make_rules (map (\<lambda>q. a # b # q) qs) = Inr (map (\<lambda>rule. ((a, b) # fst rule, snd rule)) rules)"
  by (induction qs arbitrary: rules) (auto simp: make_rule_prefix split: sum.splits)

lemma eval_condition_Nil: "eval_condition tup [] = Inr True"
  by (simp add: eval_condition_def)

lemma eval_condition_Cons:
  "eval_condition tup ((Str a, Str v) # pairs) = Inr True
     \<longleftrightarrow> tup a = Some v \<and> eval_condition tup pairs = Inr True"
  by (auto simp: eval_condition_def split: option.splits sum.splits)

lemma matching_rules_append:
  "matching_rules tup (xs @ ys) = matching_rules tup xs @ matching_rules tup ys"
  by (simp add: matching_rules_def)

lemma matching_rules_prefix:
  "length (matching_rules tup (map (\<lambda>rule. ((Str a, Str v) # fst rule, snd rule)) rules))
     = (if tup a = Some v then length (matching_rules tup rules) else 0)"
  by (induction rules) (auto simp: matching_rules_def eval_condition_Cons)


lemma conjuncts_in_mono: "conjuncts_in A rules \<Longrightarrow> A \<subseteq> B \<Longrightarrow> conjuncts_in B rules"
  unfolding conjuncts_in_def by blast

lemma conjuncts_in_append:
  "conjuncts_in A (xs @ ys) \<longleftrightarrow> conjuncts_in A xs \<and> conjuncts_in A ys"
  unfolding conjuncts_in_def by auto

lemma conjuncts_in_prefix:
  "conjuncts_in A rules \<Longrightarrow> a \<in> A \<Longrightarrow>
   conjuncts_in A (map (\<lambda>rule. ((Str a, Str v) # fst rule, snd rule)) rules)"
  unfolding conjuncts_in_def by auto

lemma paths_val_node:
  "paths (Node (Str val) val_t [sub]) [Str attr] = map (\<lambda>q. Str attr # Str val # q) (paths sub [])"
  using paths_prefix[of sub "[Str attr, Str val]"] by simp

lemma id3_rules:
  "id3 self tgt attrs dataset = Inr (t, attrs') \<Longrightarrow>
     \<exists>rules. make_rules (paths t []) = Inr rules
       \<and> (\<forall>tup\<in>set dataset. length (matching_rules tup rules) = 1)
       \<and> conjuncts_in (set attrs) rules"
  "distinct vals \<Longrightarrow> id3_loop self tgt attr dataset attrs vals = Inr (cs, attrs') \<Longrightarrow>
     \<exists>rules. make_rules (concat (map (\<lambda>c. paths c [Str attr]) cs)) = Inr rules
       \<and> (\<forall>tup\<in>set dataset. length (matching_rules tup rules)
              = (if \<exists>v\<in>set vals. tup attr = Some v then 1 else 0))
       \<and> conjuncts_in (insert attr (set attrs)) rules"
proof (induction self tgt attrs dataset and self tgt attr dataset attrs vals
       arbitrary: t attrs' and cs attrs' rule: id3_id3_loop.induct)
  case (1 self tgt attrs dataset)
  from id3_Inr_cases[OF "1.prems"] show ?case
  proof (elim disjE exE conjE)
    fix v assume "t = Node (Dict tgt v) label_t []"
    then have "make_rules (paths t []) = Inr [([], (tgt, v))]"
      by (simp add: make_rule_def)
    then show ?thesis
      by (simp add: matching_rules_def eval_condition_Nil conjuncts_in_def)
  next
    fix t_values info_gain attr a_column cs
    assume a: "column tgt dataset = Inr t_values" "length (remdups t_values) \<noteq> 1" "attrs \<noteq> []"
      "info_gain_dict self tgt attrs Map.empty = Inr info_gain" "max_key info_gain attrs = Inr attr"
      "column attr dataset = Inr a_column"
      and l: "id3_loop self tgt attr dataset attrs (sort (remdups a_column)) = Inr (cs, attrs')"
      and t: "t = Node (Str attr) attr_t cs"
    have d: "distinct (sort (remdups a_column))" by simp
    from "1.IH"[OF a d l] obtain rules where
      r: "make_rules (concat (map (\<lambda>c. paths c [Str attr]) cs)) = Inr rules" and
      c: "\<forall>tup\<in>set dataset. length (matching_rules tup rules)
              = (if \<exists>v\<in>set (sort (remdups a_column)). tup attr = Some v then 1 else 0)" and
      i: "conjuncts_in (insert attr (set attrs)) rules"
      by blast
    have mem: "attr \<in> set attrs" using max_key_mem[OF a(5)] .
    have "make_rules (paths t []) = Inr rules" using r t by simp
    moreover have "\<forall>tup\<in>set dataset. length (matching_rules tup rules) = 1"
    proof
      fix tup assume tup: "tup \<in> set dataset"
      from column_InrD[OF a(6)] tup obtain v where "tup attr = Some v" "v \<in> set a_column"
        by force
      then have "\<exists>v\<in>set (sort (remdups a_column)). tup attr = Some v" by simp
      with c tup show "length (matching_rules tup rules) = 1" by simp
    qed
    moreover have "conjuncts_in (set attrs) rules"
      using i mem by (simp add: insert_absorb)
    ultimately show ?thesis by blast
  qed
next
  case (2 self tgt attr dataset attrs)
  then show ?case by (simp add: matching_rules_def conjuncts_in_def)
next
  case (3 self tgt attr dataset attrs val vals)
  let ?subset = "filter (\<lambda>tup. tup attr = Some val) dataset"
  let ?pre = "\<lambda>rule :: rule. ((Str attr, Str val) # fst rule, snd rule)"
  from id3_loop_Cons_Inr[OF "3.prems"(2)] obtain sub attrs1 cs' where
    ne: "?subset \<noteq> []" and
    a: "id3 self tgt (remove_attr attr attrs) ?subset = Inr (sub, attrs1)" and
    b: "id3_loop self tgt attr dataset attrs1 vals = Inr (cs', attrs')" and
    cs: "cs = Node (Str val) val_t [sub] # cs'"
    by blast
  from "3.prems"(1) have dv: "distinct vals" and nv: "val \<notin> set vals" by simp_all
  from "3.IH"(2)[OF refl ne a] obtain rs where
    rs: "make_rules (paths sub []) = Inr rs" and
    rs1: "\<forall>tup\<in>set ?subset. length (matching_rules tup rs) = 1" and
    rs2: "conjuncts_in (set (remove_attr attr attrs)) rs"
    by blast
  from "3.IH"(3)[OF refl ne a refl dv b] obtain rr where
    rr: "make_rules (concat (map (\<lambda>c. paths c [Str attr]) cs')) = Inr rr" and
    rr1: "\<forall>tup\<in>set dataset. length (matching_rules tup rr)
              = (if \<exists>v\<in>set vals. tup attr = Some v then 1 else 0)" and
    rr2: "conjuncts_in (insert attr (set attrs1)) rr"
    by blast
  have first: "make_rules (paths (Node (Str val) val_t [sub]) [Str attr]) = Inr (map ?pre rs)"
    unfolding paths_val_node
    by (rule make_rules_prefix[OF _ rs]) (auto dest: paths_nonempty)
  have all: "make_rules (concat (map (\<lambda>c. paths c [Str attr]) cs)) = Inr (map ?pre rs @ rr)"
    using first rr by (simp add: cs make_rules_append del: paths.simps)
  have count: "\<forall>tup\<in>set dataset. length (matching_rules tup (map ?pre rs @ rr))
              = (if \<exists>v\<in>set (val # vals). tup attr = Some v then 1 else 0)"
  proof
    fix tup assume tup: "tup \<in> set dataset"
    show "length (matching_rules tup (map ?pre rs @ rr))
              = (if \<exists>v\<in>set (val # vals). tup attr = Some v then 1 else 0)"
    proof (cases "tup attr = Some val")
      case True
      with tup have "tup \<in> set ?subset" by simp
      with rs1 have "length (matching_rules tup rs) = 1" by blast
      moreover from True nv have "\<not> (\<exists>v\<in>set vals. tup attr = Some v)" by auto
      ultimately show ?thesis
        using True rr1 tup by (simp add: matching_rules_append matching_rules_prefix)
    next
      case False
      then show ?thesis
        using rr1 tup by (simp add: matching_rules_append matching_rules_prefix)
    qed
  qed
  have s1: "set attrs1 \<subseteq> set attrs"
    using id3_attrs_shrink(1)[OF a] set_remove_attr[of attr attrs] by blast
  have "conjuncts_in (insert attr (set attrs)) rs"
    using rs2 set_remove_attr[of attr attrs] by (auto intro: conjuncts_in_mono)
  then have "conjuncts_in (insert attr (set attrs)) (map ?pre rs)"
    by (rule conjuncts_in_prefix) simp
  moreover have "conjuncts_in (insert attr (set attrs)) rr"
    using rr2 s1 by (auto intro: conjuncts_in_mono)
  ultimately have "conjuncts_in (insert attr (set attrs)) (map ?pre rs @ rr)"
    by (simp add: conjuncts_in_append)
  with all count show ?case by blast
qed


lemma entropy_None_value:
  assumes "\<forall>tup\<in>set (effective self dso). tup r \<noteq> None"
  shows "entropy self r None dso = Inr (entropy_sum (map (\<lambda>t. the (t r)) (effective self dso)))"
  using column_total[OF assms]
  by (simp add: entropy.simps effective_def Let_def)

lemma entropy_loop_value:
  assumes "\<forall>tup\<in>set dataset. tup r \<noteq> None" and "\<forall>tup\<in>set (data self). tup r \<noteq> None"
  shows "entropy_loop self r s dataset s_values acc vals =
           Inr (acc + sum_list (map (\<lambda>val. real (count_list s_values val) / real (length s_values)
                  * entropy_sum (map (\<lambda>t. the (t r))
                      (effective self (Some (filter (\<lambda>tup. tup s = Some val) dataset))))) vals))"
proof (induction vals arbitrary: acc)
  case Nil
  then show ?case by simp
next
  case (Cons val vals)
  have "\<forall>tup\<in>set (effective self (Some (filter (\<lambda>tup. tup s = Some val) dataset))). tup r \<noteq> None"
    using assms by (auto simp: effective_def)
  from entropy_None_value[OF this] Cons.IH show ?case
    by (simp add: Let_def add.assoc)
qed

lemma information_gain_total:
  assumes "\<forall>tup\<in>set (data self). tup r \<noteq> None" and "\<forall>tup\<in>set (data self). tup s \<noteq> None"
  shows "\<exists>g. information_gain self r s = Inr g"
proof -
  have e: "\<forall>tup\<in>set (effective self None). tup r \<noteq> None"
    using assms(1) by (simp add: effective_def)
  show ?thesis
  proof (cases "s = []")
    case True
    then show ?thesis
      using entropy_None_value[OF e] by (simp add: information_gain_def entropy.simps(2))
  next
    case False
    then show ?thesis
      using entropy_None_value[OF e] column_total[OF assms(2)]
            entropy_loop_value[OF assms(1) assms(1)]
      by (simp add: information_gain_def entropy.simps(2) Let_def)
  qed
qed

lemma info_gain_dict_total:
  assumes "\<forall>tup\<in>set (data self). \<forall>a\<in>set (tgt # attrs). tup a \<noteq> None"
  shows "\<exists>m'. info_gain_dict self tgt attrs m = Inr m'"
  using assms
proof (induction attrs arbitrary: m)
  case Nil
  then show ?case by simp
next
  case (Cons a as)
  from Cons.prems have "\<forall>tup\<in>set (data self). tup tgt \<noteq> None" "\<forall>tup\<in>set (data self). tup a \<noteq> None"
    by auto
  from information_gain_total[OF this] obtain g where "information_gain self tgt a = Inr g" by blast
  moreover from Cons.prems have "\<forall>tup\<in>set (data self). \<forall>a\<in>set (tgt # as). tup a \<noteq> None" by auto
  ultimately show ?case using Cons.IH by simp
qed

lemma id3_no_KeyError:
  "\<forall>tup\<in>set dataset \<union> set (data self). \<forall>a\<in>set (tgt # attrs). tup a \<noteq> None \<Longrightarrow>
     id3 self tgt attrs dataset \<noteq> Inl KeyError"
  "\<forall>tup\<in>set dataset \<union> set (data self). \<forall>a\<in>set (tgt # attrs). tup a \<noteq> None \<Longrightarrow>
     id3_loop self tgt attr dataset attrs vals \<noteq> Inl KeyError"
proof (induction self tgt attrs dataset and self tgt attr dataset attrs vals
       rule: id3_id3_loop.induct)
  case (1 self tgt attrs dataset)
  from "1.prems" have ct: "column tgt dataset = Inr (map (\<lambda>t. the (t tgt)) dataset)"
    by (intro column_total) auto
  let ?tv = "map (\<lambda>t. the (t tgt)) dataset"
  show ?case
  proof (cases "length (remdups ?tv) = 1 \<or> attrs = []")
    case True
    then show ?thesis
      using ct by (auto simp: id3.simps[of self tgt attrs dataset] split: sum.splits
                        dest: max_key_mem) (cases "set_iter ?tv"; simp)+
  next
    case False
    from "1.prems" have "\<forall>tup\<in>set (data self). \<forall>a\<in>set (tgt # attrs). tup a \<noteq> None" by auto
    from info_gain_dict_total[OF this] obtain ig where
      ig: "info_gain_dict self tgt attrs Map.empty = Inr ig" by blast
    from False max_key_nonempty[of attrs ig] obtain attr where
      mk: "max_key ig attrs = Inr attr" by blast
    from max_key_mem[OF mk] "1.prems" have
      ca: "column attr dataset = Inr (map (\<lambda>t. the (t attr)) dataset)"
      by (intro column_total) auto
    from "1.IH"[OF ct _ _ ig mk ca "1.prems"] False
    show ?thesis
      using ct ig mk ca False
      by (auto simp: id3.simps[of self tgt attrs dataset] split: sum.splits)
  qed
next
  case (2 self tgt attr dataset attrs)
  then show ?case by simp
next
  case (3 self tgt attr dataset attrs val vals)
  let ?subset = "filter (\<lambda>tup. tup attr = Some val) dataset"
  show ?case
  proof (cases "?subset = []")
    case True
    then show ?thesis by (simp add: set_iter_def)
  next
    case False
    have p1: "\<forall>tup\<in>set ?subset \<union> set (data self). \<forall>a\<in>set (tgt # remove_attr attr attrs). tup a \<noteq> None"
      using "3.prems" set_remove_attr[of attr attrs] by auto
    show ?thesis
    proof (cases "id3 self tgt (remove_attr attr attrs) ?subset")
      case (Inl e)
      with "3.IH"(2)[OF refl False p1] False show ?thesis by (auto simp: Let_def)
    next
      case (Inr res)
      obtain sub attrs1 where res: "res = (sub, attrs1)" by (cases res)
      from id3_attrs_shrink(1)[OF Inr[unfolded res]] set_remove_attr[of attr attrs]
      have "set attrs1 \<subseteq> set attrs" by blast
      with "3.prems" have
        "\<forall>tup\<in>set dataset \<union> set (data self). \<forall>a\<in>set (tgt # attrs1). tup a \<noteq> None" by auto
      from "3.IH"(3)[OF refl False Inr[unfolded res] refl this] False Inr res
      show ?thesis by (auto simp: Let_def split: sum.splits)
    qed
  qed
qed

lemma id3_total:
  assumes "dataset \<noteq> []"
    and "\<forall>tup\<in>set dataset \<union> set (data self). \<forall>a\<in>set (tgt # attrs). tup a \<noteq> None"
  shows "\<exists>t attrs'. id3 self tgt attrs dataset = Inr (t, attrs')"
proof (cases "id3 self tgt attrs dataset")
  case (Inl e)
  with id3_only_KeyError(1)[OF assms(1) Inl] id3_no_KeyError(1)[OF assms(2)] show ?thesis by simp
next
  case (Inr res)
  then show ?thesis by (cases res) simp
qed


lemma eval_condition_total:
  "\<forall>p\<in>set pairs. \<exists>a v. p = (Str a, Str v) \<and> tup a \<noteq> None \<Longrightarrow>
     \<exists>b. eval_condition tup pairs = Inr b"
  by (induction pairs) (auto simp: eval_condition_def split: sum.splits)

lemma filter_err_total:
  "\<forall>t\<in>set ts. \<exists>b. cond t = Inr b \<Longrightarrow>
     filter_err cond ts = Inr (filter (\<lambda>t. cond t = Inr True) ts)"
  by (induction ts) auto

lemma id3_paths_last:
  "id3 self tgt attrs dataset = Inr (t, attrs') \<Longrightarrow>
     \<forall>q\<in>set (paths t pre). \<exists>v. last q = Dict tgt v"
  "id3_loop self tgt attr dataset attrs vals = Inr (cs, attrs') \<Longrightarrow>
     \<forall>c\<in>set cs. \<forall>q\<in>set (paths c pre). \<exists>v. last q = Dict tgt v"
proof (induction self tgt attrs dataset and self tgt attr dataset attrs vals
       arbitrary: t attrs' pre and cs attrs' pre rule: id3_id3_loop.induct)
  case (1 self tgt attrs dataset)
  from id3_Inr_cases[OF "1.prems"] show ?case
  proof (elim disjE exE conjE)
    fix v assume "t = Node (Dict tgt v) label_t []"
    then show ?thesis by simp
  next
    fix t_values info_gain attr a_column cs
    assume a: "column tgt dataset = Inr t_values" "length (remdups t_values) \<noteq> 1" "attrs \<noteq> []"
      "info_gain_dict self tgt attrs Map.empty = Inr info_gain" "max_key info_gain attrs = Inr attr"
      "column attr dataset = Inr a_column"
      and l: "id3_loop self tgt attr dataset attrs (sort (remdups a_column)) = Inr (cs, attrs')"
      and t: "t = Node (Str attr) attr_t cs"
    from "1.IH"[OF a l] show ?thesis by (auto simp: t)
  qed
next
  case (2 self tgt attr dataset attrs)
  then show ?case by simp
next
  case (3 self tgt attr dataset attrs val vals)
  let ?subset = "filter (\<lambda>tup. tup attr = Some val) dataset"
  from id3_loop_Cons_Inr[OF "3.prems"] obtain sub attrs1 cs' where
    ne: "?subset \<noteq> []" and
    a: "id3 self tgt (remove_attr attr attrs) ?subset = Inr (sub, attrs1)" and
    b: "id3_loop self tgt attr dataset attrs1 vals = Inr (cs', attrs')" and
    cs: "cs = Node (Str val) val_t [sub] # cs'"
    by blast
  from "3.IH"(2)[OF refl ne a] "3.IH"(3)[OF refl ne a refl b]
  show ?case by (auto simp: cs)
qed

lemma make_rules_conclusion:
  "make_rules qs = Inr rules \<Longrightarrow> \<forall>q\<in>set qs. \<exists>v. last q = Dict tgt v \<Longrightarrow>
     \<forall>rule\<in>set rules. fst (snd rule) = tgt"
  by (induction qs arbitrary: rules)
     (auto simp: make_rule_def split: sum.splits if_splits nvalue.splits)

lemma correct_pred_total:
  "t (target self) \<noteq> None \<Longrightarrow> fst (snd rule) = target self \<Longrightarrow>
     correct_pred self rule t = Inr (t (target self) = Some (snd (snd rule)))"
  by (auto simp: correct_pred_def)

lemma filter_err_value:
  "\<forall>t\<in>set ts. cond t = Inr (P t) \<Longrightarrow> filter_err cond ts = Inr (filter P ts)"
  by (induction ts) auto

lemma data_subset_filter_err:
  assumes "\<forall>t\<in>set (data self). \<exists>b. eval_condition t (fst rule) = Inr b"
  shows "filter_err (\<lambda>t. eval_condition t (fst rule)) (data self) = Inr (data_subset self rule)"
  unfolding data_subset_def using assms by (rule filter_err_total)

lemma correct_preds_filter_err:
  assumes "\<forall>t\<in>set (data self). t (target self) \<noteq> None" and "fst (snd rule) = target self"
  shows "filter_err (correct_pred self rule) (data_subset self rule) = Inr (correct_preds self rule)"
  unfolding correct_preds_def
  using assms by (intro filter_err_value) (auto simp: data_subset_def correct_pred_total)

lemma accuracy_loop_value:
  assumes "\<forall>rule\<in>set rules. \<forall>t\<in>set (data self). \<exists>b. eval_condition t (fst rule) = Inr b"
    and "\<forall>rule\<in>set rules. fst (snd rule) = target self"
    and "\<forall>t\<in>set (data self). t (target self) \<noteq> None"
  shows "accuracy_loop self n rules
         = Inr (n + sum_list (map (\<lambda>rule. length (correct_preds self rule)) rules))"
  using assms(1,2)
proof (induction rules arbitrary: n)
  case Nil
  then show ?case by simp
next
  case (Cons rule rules)
  have m: "filter_err (\<lambda>t. eval_condition t (fst rule)) (data self) = Inr (data_subset self rule)"
    using Cons.prems(1) by (intro data_subset_filter_err) simp
  have c: "filter_err (correct_pred self rule) (data_subset self rule) = Inr (correct_preds self rule)"
    using assms(3) Cons.prems(2) by (intro correct_preds_filter_err) simp_all
  from Cons.prems have "accuracy_loop self (n + length (correct_preds self rule)) rules
      = Inr (n + length (correct_preds self rule)
               + sum_list (map (\<lambda>rule. length (correct_preds self rule)) rules))"
    by (intro Cons.IH) simp_all
  then show ?case by (simp add: m c)
qed

lemma sum_length_filter_swap:
  "sum_list (map (\<lambda>r. length (filter (\<lambda>x. P x r) xs)) rs)
     = sum_list (map (\<lambda>x. length (filter (P x) rs)) xs)"
proof (induction rs)
  case Nil
  then show ?case by simp
next
  case (Cons r rs)
  have "sum_list (map (\<lambda>x. length (filter (P x) (r # rs))) xs)
        = length (filter (\<lambda>x. P x r) xs) + sum_list (map (\<lambda>x. length (filter (P x) rs)) xs)"
    by (induction xs) auto
  with Cons show ?case by simp
qed

lemma data_subsets_cover:
  assumes "\<forall>tup\<in>set (data self). length (matching_rules tup rules) = 1"
  shows "sum_list (map (\<lambda>rule. length (data_subset self rule)) rules) = length (data self)"
proof -
  have "sum_list (map (\<lambda>rule. length (data_subset self rule)) rules)
        = sum_list (map (\<lambda>tup. length (matching_rules tup rules)) (data self))"
    unfolding data_subset_def matching_rules_def
    by (rule sum_length_filter_swap[of "\<lambda>t rule. eval_condition t (fst rule) = Inr True"])
  also have "\<dots> = sum_list (map (\<lambda>tup. 1) (data self))"
    using assms by (intro arg_cong[of _ _ sum_list] map_cong) auto
  also have "\<dots> = length (data self)" by (simp add: sum_list_triv)
  finally show ?thesis .
qed

lemma length_filter_le_one:
  assumes "length (filter P xs) = 1"
  shows "length (filter (\<lambda>x. P x \<and> Q x) xs) = (if \<exists>x\<in>set xs. P x \<and> Q x then 1 else 0)"
proof -
  have "filter (\<lambda>x. P x \<and> Q x) xs = filter Q (filter P xs)" by (simp add: conj_commute)
  moreover obtain y where y: "filter P xs = [y]"
    using assms by (cases "filter P xs") auto
  moreover have "(\<exists>x\<in>set xs. P x \<and> Q x) \<longleftrightarrow> Q y"
  proof -
    have "set (filter P xs) = {y}" using y by simp
    then have "y \<in> set xs" "P y" "\<And>x. x \<in> set xs \<Longrightarrow> P x \<Longrightarrow> x = y" by auto
    then show ?thesis by metis
  qed
  ultimately show ?thesis by simp
qed

lemma sum_indicator_length:
  "sum_list (map (\<lambda>x. if P x then 1 else 0) xs) = length (filter P xs)"
  by (induction xs) auto

lemma correct_preds_count:
  assumes "\<forall>tup\<in>set (data self). length (matching_rules tup rules) = 1"
  shows "sum_list (map (\<lambda>rule. length (correct_preds self rule)) rules)
         = length (filter (predicted_correctly self rules) (data self))"
proof -
  let ?P = "\<lambda>tup rule. eval_condition tup (fst rule) = Inr True
                        \<and> tup (target self) = Some (snd (snd rule))"
  have "sum_list (map (\<lambda>rule. length (correct_preds self rule)) rules)
        = sum_list (map (\<lambda>rule. length (filter (\<lambda>tup. ?P tup rule) (data self))) rules)"
    by (simp add: correct_preds_def data_subset_def conj_commute)
  also have "\<dots> = sum_list (map (\<lambda>tup. length (filter (?P tup) rules)) (data self))"
    by (rule sum_length_filter_swap)
  also have "\<dots> = sum_list (map (\<lambda>tup. if predicted_correctly self rules tup then 1 else 0) (data self))"
  proof (intro arg_cong[of _ _ sum_list] map_cong refl)
    fix tup assume "tup \<in> set (data self)"
    with assms have "length (filter (\<lambda>rule. eval_condition tup (fst rule) = Inr True) rules) = 1"
      by (simp add: matching_rules_def)
    from length_filter_le_one[OF this, of "\<lambda>rule. tup (target self) = Some (snd (snd rule))"]
    show "length (filter (?P tup) rules) = (if predicted_correctly self rules tup then 1 else 0)"
      by (simp add: predicted_correctly_def)
  qed
  also have "\<dots> = length (filter (predicted_correctly self rules) (data self))"
    by (rule sum_indicator_length)
  finally show ?thesis .
qed


lemma build_tree_Inr:
  assumes "build_tree self = Inr (t, built)"
  shows "\<exists>attrs'. id3 self (target self) (headers self) (data self) = Inr (t, attrs')
           \<and> built = self\<lparr>headers := attrs', tree := Some t\<rparr>"
  using assms by (auto simp: build_tree_def split: sum.splits prod.splits)

text \<open>
  C4.  Take a table that satisfies its invariant, with no tree and no rules yet, and let
  \<open>build_tree\<close> return (it does when the table is not empty).  Then \<open>derive_ruleset\<close>,
  called on the table as loaded or after \<open>build_tree\<close>, returns rules such that
  \<open>eval_condition\<close> of every tuple with every rule returns a truth value, and \<open>True\<close> for
  exactly one rule.  In \<open>accuracy\<close> no test raises; the list \<open>data_subset\<close> of a rule
  holds the tuples that satisfy it, and the lengths of these lists add up to the number of
  tuples: every tuple is in the list of exactly one rule.  The loop of \<open>accuracy\<close> adds
  to \<open>total_correct\<close> the number of tuples whose rule concludes their target value, and
  \<open>accuracy\<close> returns this number divided by the number of tuples, whether it is called
  on the table as loaded, after \<open>build_tree\<close>, or again after \<open>derive_ruleset\<close>.
\<close>

theorem rules_partition_table:
  assumes "table_invariant self" and "tree self = None" and "ruleset self = None"
  shows "(data self \<noteq> [] \<longrightarrow> (\<exists>t built. build_tree self = Inr (t, built)))
       \<and> (\<forall>t built start. build_tree self = Inr (t, built) \<and> (start = self \<or> start = built) \<longrightarrow>
            (\<exists>rules end.
               derive_ruleset start = Inr (rules, end)
               \<and> data end = data self \<and> target end = target self
               \<and> (\<forall>tup\<in>set (data self).
                     (\<forall>rule\<in>set rules. \<exists>b. eval_condition tup (fst rule) = Inr b)
                     \<and> length (matching_rules tup rules) = 1)
               \<and> (\<forall>rule\<in>set rules.
                     filter_err (\<lambda>t. eval_condition t (fst rule)) (data end)
                       = Inr (data_subset end rule)
                     \<and> filter_err (correct_pred end rule) (data_subset end rule)
                       = Inr (correct_preds end rule))
               \<and> sum_list (map (\<lambda>rule. length (data_subset end rule)) rules) = length (data self)
               \<and> (\<forall>n. accuracy_loop end n rules
                        = Inr (n + length (filter (predicted_correctly end rules) (data self))))
               \<and> (data self \<noteq> [] \<longrightarrow>
                     accuracy start
                       = Inr (real (length (filter (predicted_correctly end rules) (data self)))
                                / real (length (data self)), end)
                     \<and> accuracy end = accuracy start)))"
proof (intro conjI impI allI)
  assume ne: "data self \<noteq> []"
  have "\<forall>tup\<in>set (data self) \<union> set (data self). \<forall>a\<in>set (target self # headers self). tup a \<noteq> None"
    using assms(1) by (simp add: table_invariant_def)
  from id3_total[OF ne this] show "\<exists>t built. build_tree self = Inr (t, built)"
    by (auto simp: build_tree_def)
next
  fix t built start
  assume a: "build_tree self = Inr (t, built) \<and> (start = self \<or> start = built)"
  then have bt: "build_tree self = Inr (t, built)" and st: "start = self \<or> start = built"
    by simp_all
  from build_tree_Inr[OF bt] obtain attrs' where
    t: "id3 self (target self) (headers self) (data self) = Inr (t, attrs')" and
    built: "built = self\<lparr>headers := attrs', tree := Some t\<rparr>" by blast
  from id3_rules(1)[OF t] obtain rules where
    r: "make_rules (paths t []) = Inr rules" and
    one: "\<forall>tup\<in>set (data self). length (matching_rules tup rules) = 1" and
    cj: "conjuncts_in (set (headers self)) rules" by blast
  define fin where "fin = built\<lparr>ruleset := Some rules\<rparr>"
  have fd: "data fin = data self" and ft: "target fin = target self"
    and fr: "ruleset fin = Some rules"
    by (simp_all add: fin_def built)
  have d: "derive_ruleset start = Inr (rules, fin)"
    using st
  proof
    assume "start = self"
    then show ?thesis using bt r assms(2) by (simp add: derive_ruleset_def fin_def)
  next
    assume "start = built"
    then show ?thesis using r by (simp add: derive_ruleset_def fin_def built)
  qed
  have rs: "ruleset start = None" using st assms(3) by (auto simp: built)
  have tot: "\<And>tup rule. tup \<in> set (data self) \<Longrightarrow> rule \<in> set rules \<Longrightarrow>
               \<exists>b. eval_condition tup (fst rule) = Inr b"
  proof -
    fix tup rule assume tup: "tup \<in> set (data self)" and rule: "rule \<in> set rules"
    have "\<forall>p\<in>set (fst rule). \<exists>a v. p = (Str a, Str v) \<and> tup a \<noteq> None"
    proof
      fix p assume "p \<in> set (fst rule)"
      with cj rule obtain a v where "p = (Str a, Str v)" "a \<in> set (headers self)"
        unfolding conjuncts_in_def by blast
      with assms(1) tup show "\<exists>a v. p = (Str a, Str v) \<and> tup a \<noteq> None"
        by (auto simp: table_invariant_def)
    qed
    then show "\<exists>b. eval_condition tup (fst rule) = Inr b" by (rule eval_condition_total)
  qed
  have concl: "\<forall>rule\<in>set rules. fst (snd rule) = target fin"
    unfolding ft by (rule make_rules_conclusion[OF r id3_paths_last(1)[OF t]])
  have tg: "\<forall>tup\<in>set (data fin). tup (target fin) \<noteq> None"
    using assms(1) by (simp add: fd ft table_invariant_def)
  have ev: "\<forall>rule\<in>set rules. \<forall>tup\<in>set (data fin). \<exists>b. eval_condition tup (fst rule) = Inr b"
    using tot by (simp add: fd)
  have part: "\<forall>tup\<in>set (data self).
          (\<forall>rule\<in>set rules. \<exists>b. eval_condition tup (fst rule) = Inr b)
          \<and> length (matching_rules tup rules) = 1"
    using one tot by blast
  have subsets: "\<forall>rule\<in>set rules.
          filter_err (\<lambda>t. eval_condition t (fst rule)) (data fin) = Inr (data_subset fin rule)
          \<and> filter_err (correct_pred fin rule) (data_subset fin rule) = Inr (correct_preds fin rule)"
    using ev tg concl by (auto intro!: data_subset_filter_err correct_preds_filter_err)
  have one': "\<forall>tup\<in>set (data fin). length (matching_rules tup rules) = 1"
    using one by (simp add: fd)
  have cover: "sum_list (map (\<lambda>rule. length (data_subset fin rule)) rules) = length (data self)"
    using data_subsets_cover[OF one'] by (simp add: fd)
  have loop: "\<forall>n. accuracy_loop fin n rules
                 = Inr (n + length (filter (predicted_correctly fin rules) (data self)))"
    using accuracy_loop_value[OF ev concl tg] correct_preds_count[OF one'] by (simp add: fd)
  have acc: "data self \<noteq> [] \<longrightarrow>
               accuracy start
                 = Inr (real (length (filter (predicted_correctly fin rules) (data self)))
                          / real (length (data self)), fin)
               \<and> accuracy fin = accuracy start"
    using loop[rule_format, of 0] by (simp add: accuracy_def rs d fr fd)
  from d fd ft part subsets cover loop acc
  show "\<exists>rules end.
               derive_ruleset start = Inr (rules, end)
               \<and> data end = data self \<and> target end = target self
               \<and> (\<forall>tup\<in>set (data self).
                     (\<forall>rule\<in>set rules. \<exists>b. eval_condition tup (fst rule) = Inr b)
                     \<and> length (matching_rules tup rules) = 1)
               \<and> (\<forall>rule\<in>set rules.
                     filter_err (\<lambda>t. eval_condition t (fst rule)) (data end)
                       = Inr (data_subset end rule)
                     \<and> filter_err (correct_pred end rule) (data_subset end rule)
                       = Inr (correct_preds end rule))
               \<and> sum_list (map (\<lambda>rule. length (data_subset end rule)) rules) = length (data self)
               \<and> (\<forall>n. accuracy_loop end n rules
                        = Inr (n + length (filter (predicted_correctly end rules) (data self))))
               \<and> (data self \<noteq> [] \<longrightarrow>
                     accuracy start
                       = Inr (real (length (filter (predicted_correctly end rules) (data self)))
                                / real (length (data self)), end)
                     \<and> accuracy end = accuracy start)"
    by (intro exI[of _ rules] exI[of _ fin] conjI) assumption+
qed

lemma xor_build_tree: "build_tree xor_table = Inr (xor_tree, xor_built)"
  by (simp add: build_tree_def xor_fields xor_id3 xor_built_def)

lemma xor_built_derive_ruleset: "derive_ruleset xor_built = Inr (xor_rules, xor_final)"
  by (simp add: derive_ruleset_def xor_built_def xor_final_def)
     (simp add: xor_tree_def xor_subtree_def make_rule_def xor_rules_def)

lemma xor_table_invariant: "table_invariant xor_table"
  by (simp add: table_invariant_def xor_fields xor_rows_def)

theorem rules_partition_table_witness:
  "table_invariant xor_table \<and> tree xor_table = None \<and> ruleset xor_table = None
   \<and> data xor_table \<noteq> []
   \<and> build_tree xor_table = Inr (xor_tree, xor_built)
   \<and> derive_ruleset xor_built = Inr (xor_rules, xor_final)
   \<and> list_all (\<lambda>tup. length (matching_rules tup xor_rules) = 1) (data xor_table)
   \<and> accuracy_loop xor_final 0 xor_rules = Inr 4
   \<and> accuracy xor_built = Inr (1, xor_final)"
proof -
  have ne: "data xor_table \<noteq> []" by (simp add: xor_fields xor_rows_def)
  from rules_partition_table[OF xor_table_invariant xor_fields(4) xor_fields(5)]
  have "\<forall>t built start. build_tree xor_table = Inr (t, built) \<and> (start = xor_table \<or> start = built) \<longrightarrow>
            (\<exists>rules end.
               derive_ruleset start = Inr (rules, end)
               \<and> data end = data xor_table \<and> target end = target xor_table
               \<and> (\<forall>tup\<in>set (data xor_table).
                     (\<forall>rule\<in>set rules. \<exists>b. eval_condition tup (fst rule) = Inr b)
                     \<and> length (matching_rules tup rules) = 1)
               \<and> (\<forall>rule\<in>set rules.
                     filter_err (\<lambda>t. eval_condition t (fst rule)) (data end)
                       = Inr (data_subset end rule)
                     \<and> filter_err (correct_pred end rule) (data_subset end rule)
                       = Inr (correct_preds end rule))
               \<and> sum_list (map (\<lambda>rule. length (data_subset end rule)) rules) = length (data xor_table)
               \<and> (\<forall>n. accuracy_loop end n rules
                        = Inr (n + length (filter (predicted_correctly end rules) (data xor_table))))
               \<and> (data xor_table \<noteq> [] \<longrightarrow>
                     accuracy start
                       = Inr (real (length (filter (predicted_correctly end rules) (data xor_table)))
                                / real (length (data xor_table)), end)
                     \<and> accuracy end = accuracy start))"
    by (rule conjunct2)
  from this[rule_format, of xor_tree xor_built xor_built] xor_build_tree
  obtain rules fin where
    d: "derive_ruleset xor_built = Inr (rules, fin)" and
    p0: "\<forall>tup\<in>set (data xor_table).
                     (\<forall>rule\<in>set rules. \<exists>b. eval_condition tup (fst rule) = Inr b)
                     \<and> length (matching_rules tup rules) = 1" and
    l0: "\<forall>n. accuracy_loop fin n rules
                        = Inr (n + length (filter (predicted_correctly fin rules) (data xor_table)))" and
    a0: "data xor_table \<noteq> [] \<longrightarrow>
                     accuracy xor_built
                       = Inr (real (length (filter (predicted_correctly fin rules) (data xor_table)))
                                / real (length (data xor_table)), fin)
                     \<and> accuracy fin = accuracy xor_built"
    by auto
  from d have e: "rules = xor_rules" "fin = xor_final" by (simp_all add: xor_built_derive_ruleset)
  have p: "\<forall>tup\<in>set (data xor_table). length (matching_rules tup xor_rules) = 1"
    using p0 unfolding e by blast
  have l: "accuracy_loop xor_final 0 xor_rules
              = Inr (length (filter (predicted_correctly xor_final xor_rules) (data xor_table)))"
    using l0[rule_format, of 0] unfolding e by simp
  have a: "accuracy xor_built
              = Inr (real (length (filter (predicted_correctly xor_final xor_rules) (data xor_table)))
                       / real (length (data xor_table)), xor_final)"
    using a0 ne unfolding e by blast
  have c: "length (filter (predicted_correctly xor_final xor_rules) (data xor_table)) = 4"
    by (simp add: xor_fields xor_rows_def xor_rules_def xor_final_def xor_built_def
          predicted_correctly_def eval_condition_def)
  have n: "length (data xor_table) = 4" by (simp add: xor_fields xor_rows_def)
  from xor_table_invariant xor_fields(4) xor_fields(5) ne xor_build_tree xor_built_derive_ruleset
    p l a c n
  show ?thesis by (simp add: list_all_iff)
qed

section \<open>Entropy in exact arithmetic\<close>








lemma dict_keys_set [simp]: "set (dict_keys xs) = set xs"
  by (simp add: dict_keys_def)


















section \<open>Rounding to double precision\<close>

text \<open>
  Rounding keeps the sign and does not cross a power of two; where \<open>x * 2^n\<close> lies in
  \<open>[2^52, 2^53)\<close> the double nearest to \<open>x\<close> is \<open>round_even (x * 2^n) / 2^n\<close>, which
  evaluates \<open>fl\<close> at a given rational number.
\<close>

lemma round_even_ge_floor: "\<lfloor>x\<rfloor> \<le> round_even x"
  by (simp add: round_even_def Let_def)


lemma round_even_of_int [simp]: "round_even (of_int m) = m"
  by (simp add: round_even_def)

lemma floor_log2_bounds:
  assumes "0 < x"
  shows "2 powr of_int \<lfloor>log 2 x\<rfloor> \<le> x" and "x < 2 powr (of_int \<lfloor>log 2 x\<rfloor> + 1)"
proof -
  show "2 powr of_int \<lfloor>log 2 x\<rfloor> \<le> x"
    using le_log_iff[of 2 x "of_int \<lfloor>log 2 x\<rfloor>"] assms by simp
  have "log 2 x < of_int \<lfloor>log 2 x\<rfloor> + 1" by linarith
  then show "x < 2 powr (of_int \<lfloor>log 2 x\<rfloor> + 1)"
    using log_less_iff[of 2 x "of_int \<lfloor>log 2 x\<rfloor> + 1"] assms by simp
qed

lemma floor_log2_eq:
  assumes "0 < x" "2 powr of_int k \<le> x" "x < 2 powr (of_int k + 1)"
  shows "\<lfloor>log 2 x\<rfloor> = k"
proof (rule floor_unique)
  show "of_int k \<le> log 2 x" using assms by (simp add: le_log_iff)
  show "log 2 x < of_int k + 1" using assms by (simp add: log_less_iff)
qed

lemma fl_zero [simp]: "fl 0 = 0"
  by (simp add: fl_def)

lemma ulp_pos: "0 < ulp x"
  by (simp add: ulp_def)

lemma ulp_floor_log2: "ulp x = 2 powr of_int \<lfloor>log 2 \<bar>x\<bar>\<rfloor> / 2 ^ 52"
proof -
  have "ulp x = 2 powr (of_int \<lfloor>log 2 \<bar>x\<bar>\<rfloor> - 52)" by (simp add: ulp_def)
  also have "\<dots> = 2 powr of_int \<lfloor>log 2 \<bar>x\<bar>\<rfloor> / 2 powr 52" by (rule powr_diff)
  also have "(2::real) powr 52 = 2 ^ 52" using powr_realpow[of "2::real" 52] by simp
  finally show ?thesis .
qed

lemma ulp_bounds:
  assumes "x \<noteq> 0"
  shows "2 ^ 52 * ulp x \<le> \<bar>x\<bar>" and "\<bar>x\<bar> < 2 ^ 53 * ulp x"
proof -
  have pos: "0 < \<bar>x\<bar>" using assms by simp
  from floor_log2_bounds(1)[OF pos] show "2 ^ 52 * ulp x \<le> \<bar>x\<bar>"
    by (simp add: ulp_floor_log2)
  from floor_log2_bounds(2)[OF pos] have "\<bar>x\<bar> < 2 * 2 powr of_int \<lfloor>log 2 \<bar>x\<bar>\<rfloor>"
    by (simp add: powr_add)
  then show "\<bar>x\<bar> < 2 ^ 53 * ulp x" by (simp add: ulp_floor_log2)
qed

lemma ulp_eval:
  assumes "2 ^ 52 \<le> \<bar>x\<bar> * 2 ^ n" "\<bar>x\<bar> * 2 ^ n < 2 ^ 53"
  shows "ulp x = 1 / 2 ^ n"
proof -
  have pos: "0 < \<bar>x\<bar>"
  proof (rule ccontr)
    assume "\<not> 0 < \<bar>x\<bar>"
    then have "\<bar>x\<bar> * 2 ^ n = 0" by simp
    with assms(1) show False by simp
  qed
  have p52: "(2::real) powr 52 = 2 ^ 52" using powr_realpow[of "2::real" 52] by simp
  have p53: "(2::real) powr 53 = 2 ^ 53" using powr_realpow[of "2::real" 53] by simp
  have pn: "(2::real) powr real n = 2 ^ n" by (simp add: powr_realpow)
  have k: "\<lfloor>log 2 \<bar>x\<bar>\<rfloor> = 52 - int n"
  proof (rule floor_log2_eq[OF pos])
    have "(2::real) powr of_int (52 - int n) = 2 powr (52 - real n)" by simp
    also have "\<dots> = 2 ^ 52 / 2 ^ n" unfolding powr_diff p52 pn ..
    finally show "2 powr of_int (52 - int n) \<le> \<bar>x\<bar>"
      using assms(1) by (simp add: divide_le_eq)
    have "(2::real) powr (of_int (52 - int n) + 1) = 2 powr (53 - real n)" by simp
    also have "\<dots> = 2 ^ 53 / 2 ^ n" unfolding powr_diff p53 pn ..
    finally show "\<bar>x\<bar> < 2 powr (of_int (52 - int n) + 1)"
      using assms(2) by (simp add: less_divide_eq)
  qed
  have "ulp x = 2 powr (52 - real n) / 2 ^ 52" unfolding ulp_floor_log2 k by simp
  also have "\<dots> = (2 ^ 52 / 2 ^ n) / 2 ^ 52" unfolding powr_diff p52 pn ..
  finally show ?thesis by simp
qed

lemma fl_pos:
  assumes "0 < x"
  shows "0 < fl x"
proof -
  let ?r = "x / ulp x"
  from assms have nz: "x \<noteq> 0" by simp
  from ulp_bounds(1)[OF nz] assms ulp_pos[of x] have "2 ^ 52 \<le> ?r"
    by (simp add: le_divide_eq)
  then have "1 \<le> ?r" by simp
  then have "1 \<le> \<lfloor>?r\<rfloor>" by (simp add: le_floor_iff)
  with round_even_ge_floor[of ?r] have "0 < round_even ?r" by linarith
  then have "0 < of_int (round_even ?r) * ulp x" using ulp_pos[of x] by simp
  then show ?thesis using nz by (simp add: fl_def)
qed



lemma fl_eval_pos:
  assumes "2 ^ 52 \<le> x * 2 ^ n" "x * 2 ^ n < 2 ^ 53"
  shows "fl x = of_int (round_even (x * 2 ^ n)) / 2 ^ n"
proof -
  have pos: "0 < x"
  proof (rule ccontr)
    assume "\<not> 0 < x"
    then have "x * 2 ^ n \<le> 0" by (simp add: mult_nonpos_nonneg)
    with assms(1) show False by simp
  qed
  then have "ulp x = 1 / 2 ^ n" using assms by (intro ulp_eval) simp_all
  then show ?thesis using pos by (simp add: fl_def)
qed


lemma round_even_numeral [simp]: "round_even (numeral k) = numeral k"
  using round_even_of_int[of "numeral k"] by simp

lemma fl_one [simp]: "fl 1 = 1"
  using fl_eval_pos[of 1 52] by simp












text \<open>
  The computed entropy of a list is \<open>0\<close> exactly when the list has one value: every term
  \<open>p * log2(p)\<close> is computed as a number that is not positive, and as a negative one for
  a value that makes up at most half of the list.
\<close>

lemma fl_nonneg: "0 \<le> x \<Longrightarrow> 0 \<le> fl x"
  using fl_pos[of x] by (cases "x = 0") auto






lemma entropy_fold_dbl_nonneg:
  assumes "\<forall>v\<in>set ks. t v \<le> 0" "0 \<le> e"
  shows "0 \<le> foldl (\<lambda>entropy val. fl (entropy - t val)) e ks"
  using assms
proof (induction ks arbitrary: e)
  case Nil
  then show ?case by simp
next
  case (Cons k ks)
  from Cons.prems have "0 \<le> e - t k" by simp
  then have "0 \<le> fl (e - t k)" by (rule fl_nonneg)
  with Cons show ?case by simp
qed








section \<open>The computed entropy of eleven equally frequent values\<close>



















section \<open>Entropy and gain, exact and as computed\<close>










end
